theory Spec2Isabelle
  imports Main "HOL-Library.Sublist"
begin

section \<open>Data model (src/main.py, lines 23-49)\<close>

text \<open>
  The module constants. Times are whole milliseconds throughout: \<open>MAX_FIND_SEC = 60\<close>
  seconds is \<open>MAX_FIND_MS = 60000\<close>, and \<open>POLL_MS / 1000\<close> seconds of sleep is
  \<open>POLL_MS\<close> milliseconds. \<open>VERBOSE\<close> is \<open>False\<close> in the source, so the
  logging branches of \<open>hard_click\<close> are dead and are left out.
\<close>

definition MAX_WAIT :: nat where "MAX_WAIT = 8000"
definition POLL_MS :: nat where "POLL_MS = 100"
definition MAX_FIND_MS :: nat where "MAX_FIND_MS = 60000"

record StepResult =
  step :: string
  status :: string
  detail :: string

text \<open>
  \<open>InstanceState\<close>: the field \<open>id\<close> is \<open>inst_id\<close> and the field \<open>status\<close> is
  \<open>inst_status\<close> here (the first is a HOL constant, the second a field of
  \<open>StepResult\<close>). \<open>started_at\<close> holds a clock reading in milliseconds.
\<close>

record InstanceState =
  inst_id :: int
  runs :: int
  successes :: int
  failures :: int
  current_step :: string
  last_url :: string
  last_detail :: string
  inst_status :: string
  started_at :: nat
  last_duration :: nat

definition new_InstanceState :: "int \<Rightarrow> nat \<Rightarrow> InstanceState" where
  "new_InstanceState i now =
     \<lparr>inst_id = i, runs = 0, successes = 0, failures = 0, current_step = ''idle'',
      last_url = '''', last_detail = '''', inst_status = ''idle'', started_at = now,
      last_duration = 0\<rparr>"

section \<open>Exceptions\<close>

text \<open>
  The exceptions the program meets. \<open>CancelledError\<close> derives from \<open>BaseException\<close>
  (the source needs Python 3.10 or later for its \<open>list[str] | None\<close> annotation), so a
  handler \<open>except Exception\<close> and \<open>contextlib.suppress(Exception)\<close> let it pass;
  the three others derive from \<open>Exception\<close>. \<open>Error\<close> stands for any other
  \<open>Exception\<close> raised by the browser library.
\<close>

datatype exn =
    PlaywrightTimeout string
  | RuntimeError string
  | Error string
  | CancelledError

fun is_Exception :: "exn \<Rightarrow> bool" where
  "is_Exception CancelledError = False"
| "is_Exception _ = True"

text \<open>\<open>str(e)\<close>: the message of the exception.\<close>

fun str_exn :: "exn \<Rightarrow> string" where
  "str_exn (PlaywrightTimeout m) = m"
| "str_exn (RuntimeError m) = m"
| "str_exn (Error m) = m"
| "str_exn CancelledError = ''''"

section \<open>The environment: browser, clock, scheduler\<close>

text \<open>
  Every call that leaves the program is an \<open>op\<close>. Element handles are numbers. The
  numbers carried by an operation are its selector, its element handle, the \<open>force\<close>
  flag and its timeout in milliseconds, as the source passes them. \<open>HardClick d\<close> is
  not a call: it is the mark that \<open>hard_click\<close> was entered with description \<open>d\<close>,
  kept in the trace so that one can say which clicks a run attempted.
\<close>

datatype op =
    PlaywrightStart | PlaywrightStop
  | Launch | InstallChromium | RandomProfile | NewContext | AddInitScript
  | NewPage | Route | PageEvaluate
  | Goto string nat
  | WaitForLoadState string nat
  | WaitForSelector string nat
  | ScrollIntoView nat
  | ElClick nat bool nat
  | ElDblClick nat nat
  | BoundingBox nat
  | MouseMove | MouseDown | MouseUp
  | PageClick string nat
  | EvaluateClick nat
  | Sleep nat
  | RandomSleep nat nat
  | AsyncioWait
  | ContextClose | BrowserClose
  | RandomChoice
  | HardClick string

text \<open>
  A call either raises or returns. The only returned values the program looks at are
  the element of \<open>wait_for_selector\<close> and the box of \<open>bounding_box\<close>, both
  \<open>None\<close> or an object, and the index drawn by \<open>random.choice\<close>.
\<close>

type_synonym resp = "exn + nat option"

text \<open>
  The world is the clock (\<open>time.time()\<close>, in milliseconds), the calls made so far with
  their outcomes, most recent first, and the counter \<open>total_done\<close> of \<open>main\<close>.
  The environment answers a call from the world it is made in, with an outcome and
  the time the call took; so an answer may depend on the whole history.
\<close>

record world =
  clock :: nat
  trace :: "(op \<times> resp) list"
  total_done :: int

type_synonym env = "world \<Rightarrow> op \<Rightarrow> resp \<times> nat"

definition call :: "env \<Rightarrow> op \<Rightarrow> world \<Rightarrow> resp \<times> world" where
  "call env a w =
     (case env w a of
        (r, d) \<Rightarrow> (r, w\<lparr>clock := clock w + d, trace := (a, r) # trace w\<rparr>))"

text \<open>
  \<open>await asyncio.sleep(ms / 1000)\<close>: it returns after at least the time asked for, and it
  raises only when the task is cancelled, whatever the environment names as the
  exception.
\<close>

definition sleep :: "env \<Rightarrow> nat \<Rightarrow> world \<Rightarrow> (exn + unit) \<times> world" where
  "sleep env ms w =
     (case env w (Sleep ms) of
        (Inl e, d) \<Rightarrow>
          (Inl CancelledError,
           w\<lparr>clock := clock w + d, trace := (Sleep ms, Inl CancelledError) # trace w\<rparr>)
      | (Inr v, d) \<Rightarrow>
          (Inr (),
           w\<lparr>clock := clock w + ms + d, trace := (Sleep ms, Inr None) # trace w\<rparr>))"

text \<open>\<open>await asyncio.sleep(random.uniform(lo, hi))\<close>, bounds in milliseconds.\<close>

definition random_sleep :: "env \<Rightarrow> nat \<Rightarrow> nat \<Rightarrow> world \<Rightarrow> (exn + unit) \<times> world" where
  "random_sleep env lo hi w =
     (case env w (RandomSleep lo hi) of
        (Inl e, d) \<Rightarrow>
          (Inl CancelledError,
           w\<lparr>clock := clock w + d,
             trace := (RandomSleep lo hi, Inl CancelledError) # trace w\<rparr>)
      | (Inr v, d) \<Rightarrow>
          (Inr (),
           w\<lparr>clock := clock w + lo + d,
             trace := (RandomSleep lo hi, Inr None) # trace w\<rparr>))"

text \<open>A call whose value is not used.\<close>

definition perform :: "env \<Rightarrow> op \<Rightarrow> world \<Rightarrow> (exn + unit) \<times> world" where
  "perform env a w =
     (case call env a w of
        (Inl e, w') \<Rightarrow> (Inl e, w')
      | (Inr v, w') \<Rightarrow> (Inr (), w'))"

text \<open>Sequencing: an exception ends the sequence.\<close>

definition bind_exn ::
  "('s \<Rightarrow> (exn + 'a) \<times> 's) \<Rightarrow> ('a \<Rightarrow> 's \<Rightarrow> (exn + 'b) \<times> 's) \<Rightarrow> 's \<Rightarrow> (exn + 'b) \<times> 's" where
  "bind_exn m f s =
     (case m s of
        (Inl e, s') \<Rightarrow> (Inl e, s')
      | (Inr a, s') \<Rightarrow> f a s')"

text \<open>\<open>try: await a; except Exception: pass\<close>\<close>

definition attempt :: "env \<Rightarrow> op \<Rightarrow> world \<Rightarrow> (exn + unit) \<times> world" where
  "attempt env a w =
     (case call env a w of
        (Inl e, w') \<Rightarrow> if is_Exception e then (Inr (), w') else (Inl e, w')
      | (Inr v, w') \<Rightarrow> (Inr (), w'))"

section \<open>Interaction engine: \<open>hard_click\<close> (lines 61-157)\<close>

text \<open>
  How the body of the \<open>for sel in selectors\<close> loop ends: with \<open>return\<close>, with an
  exception that leaves \<open>hard_click\<close>, or by going on to the next selector with the
  current \<open>last_err\<close>.
\<close>

datatype flow = Return | Raise exn | Next "exn option"

text \<open>\<open>try: m; return; except Exception as e: last_err = e\<close>\<close>

definition try_strategy ::
  "(world \<Rightarrow> (exn + unit) \<times> world) \<Rightarrow> exn option \<Rightarrow> world \<Rightarrow> flow \<times> world" where
  "try_strategy m last_err w =
     (case m w of
        (Inr u, w') \<Rightarrow> (Return, w')
      | (Inl e, w') \<Rightarrow> if is_Exception e then (Next (Some e), w') else (Raise e, w'))"

text \<open>One strategy after another: the second runs when the first fell through.\<close>

definition or_else ::
  "(exn option \<Rightarrow> world \<Rightarrow> flow \<times> world) \<Rightarrow> (exn option \<Rightarrow> world \<Rightarrow> flow \<times> world)
   \<Rightarrow> exn option \<Rightarrow> world \<Rightarrow> flow \<times> world" where
  "or_else s1 s2 last_err w =
     (case s1 last_err w of
        (Next last_err', w') \<Rightarrow> s2 last_err' w'
      | (Return, w') \<Rightarrow> (Return, w')
      | (Raise e, w') \<Rightarrow> (Raise e, w'))"

definition el_click :: "env \<Rightarrow> nat \<Rightarrow> bool \<Rightarrow> exn option \<Rightarrow> world \<Rightarrow> flow \<times> world" where
  "el_click env el force = try_strategy (perform env (ElClick el force MAX_WAIT))"

definition el_dblclick :: "env \<Rightarrow> nat \<Rightarrow> bool \<Rightarrow> exn option \<Rightarrow> world \<Rightarrow> flow \<times> world" where
  "el_dblclick env el double last_err w =
     (if double then try_strategy (perform env (ElDblClick el MAX_WAIT)) last_err w
      else (Next last_err, w))"

text \<open>
  The pointer sequence at a random point of the element's box. The box is read first;
  a failure to read it, or no box, skips the strategy and leaves \<open>last_err\<close> as it is.
\<close>

definition mouse_sequence :: "env \<Rightarrow> world \<Rightarrow> (exn + unit) \<times> world" where
  "mouse_sequence env =
     bind_exn (perform env MouseMove) (\<lambda>_.
     bind_exn (random_sleep env 50 150) (\<lambda>_.
     bind_exn (perform env MouseDown) (\<lambda>_.
     bind_exn (random_sleep env 50 120) (\<lambda>_.
     perform env MouseUp))))"

definition mouse_click :: "env \<Rightarrow> nat \<Rightarrow> exn option \<Rightarrow> world \<Rightarrow> flow \<times> world" where
  "mouse_click env el last_err w =
     (case call env (BoundingBox el) w of
        (Inl e, w') \<Rightarrow> if is_Exception e then (Next last_err, w') else (Raise e, w')
      | (Inr None, w') \<Rightarrow> (Next last_err, w')
      | (Inr (Some box), w') \<Rightarrow> try_strategy (mouse_sequence env) last_err w')"

definition page_click :: "env \<Rightarrow> string \<Rightarrow> exn option \<Rightarrow> world \<Rightarrow> flow \<times> world" where
  "page_click env sel = try_strategy (perform env (PageClick sel MAX_WAIT))"

definition js_click :: "env \<Rightarrow> nat \<Rightarrow> exn option \<Rightarrow> world \<Rightarrow> flow \<times> world" where
  "js_click env el = try_strategy (perform env (EvaluateClick el))"

text \<open>Lines 84-147: what is done with an element that was found.\<close>

definition click_strategies ::
  "env \<Rightarrow> string \<Rightarrow> nat \<Rightarrow> bool \<Rightarrow> exn option \<Rightarrow> world \<Rightarrow> flow \<times> world" where
  "click_strategies env sel el double last_err w =
     (case attempt env (ScrollIntoView el) w of
        (Inl e, w') \<Rightarrow> (Raise e, w')
      | (Inr u, w') \<Rightarrow>
          or_else (el_click env el True)
         (or_else (el_click env el False)
         (or_else (el_dblclick env el double)
         (or_else (mouse_click env el)
         (or_else (page_click env sel)
                  (js_click env el))))) last_err w')"

text \<open>
  Lines 80-155: the body of the \<open>for\<close> loop. Both outer handlers do the same; they
  catch what \<open>wait_for_selector\<close> raises, since every later call has a handler of its
  own.
\<close>

definition try_selector ::
  "env \<Rightarrow> string \<Rightarrow> bool \<Rightarrow> exn option \<Rightarrow> world \<Rightarrow> flow \<times> world" where
  "try_selector env sel double last_err w =
     (case call env (WaitForSelector sel POLL_MS) w of
        (Inl e, w') \<Rightarrow>
          if is_Exception e then
            (case sleep env POLL_MS w' of
               (Inl e', w'') \<Rightarrow> (Raise e', w'')
             | (Inr u, w'') \<Rightarrow> (Next (Some e), w''))
          else (Raise e, w')
      | (Inr None, w') \<Rightarrow> (Next last_err, w')
      | (Inr (Some el), w') \<Rightarrow> click_strategies env sel el double last_err w')"

fun for_selectors ::
  "env \<Rightarrow> string list \<Rightarrow> bool \<Rightarrow> exn option \<Rightarrow> world \<Rightarrow> flow \<times> world" where
  "for_selectors env [] double last_err w = (Next last_err, w)"
| "for_selectors env (sel # sels) double last_err w =
     (case try_selector env sel double last_err w of
        (Next last_err', w') \<Rightarrow> for_selectors env sels double last_err' w'
      | (Return, w') \<Rightarrow> (Return, w')
      | (Raise e, w') \<Rightarrow> (Raise e, w'))"


subsection \<open>The clock never runs backwards\<close>

lemma call_clock: "call env a w = (r, w') \<Longrightarrow> clock w \<le> clock w'"
  by (auto simp: call_def split: prod.splits)

lemma sleep_clock: "sleep env ms w = (r, w') \<Longrightarrow> clock w \<le> clock w'"
  by (auto simp: sleep_def split: prod.splits sum.splits)

lemma sleep_clock_done: "sleep env ms w = (Inr u, w') \<Longrightarrow> clock w + ms \<le> clock w'"
  by (auto simp: sleep_def split: prod.splits sum.splits)

lemma sleep_raises_cancelled: "sleep env ms w = (Inl e, w') \<Longrightarrow> e = CancelledError"
  by (auto simp: sleep_def split: prod.splits sum.splits)

lemma random_sleep_clock: "random_sleep env lo hi w = (r, w') \<Longrightarrow> clock w \<le> clock w'"
  by (auto simp: random_sleep_def split: prod.splits sum.splits)

lemma perform_clock: "perform env a w = (r, w') \<Longrightarrow> clock w \<le> clock w'"
  by (auto simp: perform_def split: prod.splits sum.splits dest: call_clock)

lemma attempt_clock: "attempt env a w = (r, w') \<Longrightarrow> clock w \<le> clock w'"
  by (auto simp: attempt_def split: prod.splits sum.splits if_splits dest: call_clock)

lemma bind_exn_clock:
  assumes "bind_exn m f w = (r, w')"
    and "\<And>r1 w1. m w = (r1, w1) \<Longrightarrow> clock w \<le> clock w1"
    and "\<And>a w1 r2 w2. f a w1 = (r2, w2) \<Longrightarrow> clock w1 \<le> clock w2"
  shows "clock w \<le> clock w'"
proof (cases "m w")
  case (Pair r1 w1)
  then have le1: "clock w \<le> clock w1" using assms(2) by simp
  show ?thesis
  proof (cases r1)
    case (Inl e)
    with Pair assms(1) have "w' = w1" by (simp add: bind_exn_def)
    with le1 show ?thesis by simp
  next
    case (Inr a)
    with Pair assms(1) have "f a w1 = (r, w')" by (simp add: bind_exn_def)
    then have "clock w1 \<le> clock w'" using assms(3) by simp
    with le1 show ?thesis by simp
  qed
qed

lemma mouse_sequence_clock: "mouse_sequence env w = (r, w') \<Longrightarrow> clock w \<le> clock w'"
  unfolding mouse_sequence_def
  by (erule bind_exn_clock bind_exn_clock perform_clock random_sleep_clock)+

lemma try_strategy_clock:
  assumes "try_strategy m le w = (f, w')"
    and "\<And>r1 w1. m w = (r1, w1) \<Longrightarrow> clock w \<le> clock w1"
  shows "clock w \<le> clock w'"
  using assms by (auto simp: try_strategy_def split: prod.splits sum.splits if_splits)

lemma or_else_clock:
  assumes "or_else s1 s2 le w = (f, w')"
    and "\<And>f1 w1. s1 le w = (f1, w1) \<Longrightarrow> clock w \<le> clock w1"
    and "\<And>le1 w1 f2 w2. s2 le1 w1 = (f2, w2) \<Longrightarrow> clock w1 \<le> clock w2"
  shows "clock w \<le> clock w'"
proof (cases "s1 le w")
  case (Pair f1 w1)
  then have le1: "clock w \<le> clock w1" using assms(2) by simp
  show ?thesis
  proof (cases f1)
    case (Next le1')
    with Pair assms(1) have "s2 le1' w1 = (f, w')" by (simp add: or_else_def)
    then have "clock w1 \<le> clock w'" using assms(3) by simp
    with le1 show ?thesis by simp
  qed (use Pair assms(1) le1 in \<open>auto simp: or_else_def\<close>)
qed

lemma el_click_clock: "el_click env el force le w = (f, w') \<Longrightarrow> clock w \<le> clock w'"
  unfolding el_click_def by (erule try_strategy_clock) (erule perform_clock)

lemma el_dblclick_clock: "el_dblclick env el d le w = (f, w') \<Longrightarrow> clock w \<le> clock w'"
  unfolding el_dblclick_def
  by (auto split: if_splits elim!: try_strategy_clock perform_clock)

lemma mouse_click_clock: "mouse_click env el le w = (f, w') \<Longrightarrow> clock w \<le> clock w'"
  unfolding mouse_click_def
  by (auto split: prod.splits sum.splits option.splits if_splits
      dest!: call_clock try_strategy_clock [OF _ mouse_sequence_clock])

lemma page_click_clock: "page_click env sel le w = (f, w') \<Longrightarrow> clock w \<le> clock w'"
  unfolding page_click_def by (erule try_strategy_clock) (erule perform_clock)

lemma js_click_clock: "js_click env el le w = (f, w') \<Longrightarrow> clock w \<le> clock w'"
  unfolding js_click_def by (erule try_strategy_clock) (erule perform_clock)

lemma click_strategies_clock:
  assumes "click_strategies env sel el d le w = (f, w')"
  shows "clock w \<le> clock w'"
proof (cases "attempt env (ScrollIntoView el) w")
  case (Pair r1 w1)
  then have le1: "clock w \<le> clock w1" by (rule attempt_clock)
  show ?thesis
  proof (cases r1)
    case (Inl e)
    with Pair assms have "w' = w1" by (simp add: click_strategies_def)
    with le1 show ?thesis by simp
  next
    case (Inr u)
    with Pair assms have
      "or_else (el_click env el True)
         (or_else (el_click env el False)
         (or_else (el_dblclick env el d)
         (or_else (mouse_click env el)
         (or_else (page_click env sel) (js_click env el))))) le w1 = (f, w')"
      by (simp add: click_strategies_def)
    then have "clock w1 \<le> clock w'"
      by (elim or_else_clock el_click_clock el_dblclick_clock mouse_click_clock
          page_click_clock js_click_clock)
    with le1 show ?thesis by simp
  qed
qed

lemma try_selector_clock:
  "try_selector env sel d le w = (f, w') \<Longrightarrow> clock w \<le> clock w'"
  unfolding try_selector_def
  by (auto split: prod.splits sum.splits option.splits if_splits
      dest!: call_clock sleep_clock click_strategies_clock)

lemma for_selectors_clock:
  "for_selectors env sels d le w = (f, w') \<Longrightarrow> clock w \<le> clock w'"
proof (induction sels arbitrary: le w)
  case Nil
  then show ?case by simp
next
  case (Cons sel sels)
  obtain f1 w1 where ts: "try_selector env sel d le w = (f1, w1)"
    by (cases "try_selector env sel d le w")
  then have le1: "clock w \<le> clock w1" by (rule try_selector_clock)
  show ?case
  proof (cases f1)
    case (Next le1')
    with ts Cons.prems have "for_selectors env sels d le1' w1 = (f, w')" by simp
    then have "clock w1 \<le> clock w'" by (rule Cons.IH)
    with le1 show ?thesis by simp
  qed (use ts Cons.prems le1 in auto)
qed

subsection \<open>The polling loop of \<open>hard_click\<close>\<close>

text \<open>
  Lines 74-157: \<open>while time.time() < deadline\<close>, a pass over the selectors, a sleep
  of one poll interval, and after the loop \<open>raise last_err or RuntimeError(...)\<close>
  (an exception object is truthy). Every pass that goes round ends with a completed
  sleep, so the clock advances and the loop ends.
\<close>

function hard_click_loop ::
  "env \<Rightarrow> string list \<Rightarrow> string \<Rightarrow> bool \<Rightarrow> nat \<Rightarrow> exn option \<Rightarrow> world
   \<Rightarrow> (exn + unit) \<times> world" where
  "hard_click_loop env selectors description double deadline last_err w =
     (if clock w < deadline then
        (case for_selectors env selectors double last_err w of
           (Return, w') \<Rightarrow> (Inr (), w')
         | (Raise e, w') \<Rightarrow> (Inl e, w')
         | (Next last_err', w') \<Rightarrow>
             (case sleep env POLL_MS w' of
                (Inl e, w'') \<Rightarrow> (Inl e, w'')
              | (Inr u, w'') \<Rightarrow>
                  hard_click_loop env selectors description double deadline last_err' w''))
      else
        (Inl (case last_err of
                Some e \<Rightarrow> e
              | None \<Rightarrow> RuntimeError (''Element not found/clickable: '' @ description)),
         w))"
  by pat_completeness auto
termination
proof (relation "measure (\<lambda>(env, selectors, description, double, deadline, last_err, w).
    deadline - clock w)", goal_cases)
  case 1
  show ?case by simp
next
  case (2 env selectors description double deadline last_err w x1 w' last_err' x2 w'' u)
  from 2(2) have "clock w \<le> clock w'"
    by (metis for_selectors_clock)
  moreover from 2(4,5) have "clock w' + POLL_MS \<le> clock w''"
    by (metis sleep_clock_done)
  ultimately show ?case using 2(1) by (simp add: POLL_MS_def)
qed

text \<open>
  \<open>hard_click(page, selector, description, many_selectors, double)\<close>;
  \<open>many_selectors or []\<close> makes \<open>None\<close> the empty list.
\<close>

definition hard_click ::
  "env \<Rightarrow> string \<Rightarrow> string \<Rightarrow> string list \<Rightarrow> bool \<Rightarrow> world \<Rightarrow> (exn + unit) \<times> world" where
  "hard_click env selector description many_selectors double w =
     hard_click_loop env (selector # many_selectors) description double
       (clock w + MAX_FIND_MS) None
       (w\<lparr>trace := (HardClick description, Inr None) # trace w\<rparr>)"


declare hard_click_loop.simps [simp del]

section \<open>Interaction engine: \<open>wait_for_load\<close> and \<open>wait_for_any_visible\<close> (lines 160-185)\<close>

definition wait_for_load :: "env \<Rightarrow> nat \<Rightarrow> world \<Rightarrow> (exn + unit) \<times> world" where
  "wait_for_load env max_ms =
     bind_exn (attempt env (WaitForLoadState ''domcontentloaded'' max_ms)) (\<lambda>_.
     attempt env (WaitForLoadState ''networkidle'' 500))"

text \<open>
  The \<open>for sel in selectors\<close> loop of \<open>wait_for_any_visible\<close>: the first selector
  whose element is found is returned; a timeout or any other \<open>Exception\<close> goes on
  to the next selector.
\<close>

fun poll_selectors :: "env \<Rightarrow> string list \<Rightarrow> world \<Rightarrow> (exn + string option) \<times> world" where
  "poll_selectors env [] w = (Inr None, w)"
| "poll_selectors env (sel # sels) w =
     (case call env (WaitForSelector sel POLL_MS) w of
        (Inl e, w') \<Rightarrow> if is_Exception e then poll_selectors env sels w' else (Inl e, w')
      | (Inr None, w') \<Rightarrow> poll_selectors env sels w'
      | (Inr (Some el), w') \<Rightarrow> (Inr (Some sel), w'))"

lemma poll_selectors_clock:
  "poll_selectors env sels w = (r, w') \<Longrightarrow> clock w \<le> clock w'"
proof (induction sels arbitrary: w)
  case Nil
  then show ?case by simp
next
  case (Cons sel sels)
  obtain r1 w1 where c: "call env (WaitForSelector sel POLL_MS) w = (r1, w1)"
    by (cases "call env (WaitForSelector sel POLL_MS) w")
  then have le1: "clock w \<le> clock w1" by (rule call_clock)
  from Cons.prems c have "w' = w1 \<or> poll_selectors env sels w1 = (r, w')"
    by (auto split: sum.splits option.splits if_splits)
  then show ?case using le1 Cons.IH [of w1] by auto
qed

function wait_for_any_visible_loop ::
  "env \<Rightarrow> string list \<Rightarrow> nat \<Rightarrow> world \<Rightarrow> (exn + string option) \<times> world" where
  "wait_for_any_visible_loop env selectors deadline w =
     (if clock w < deadline then
        (case poll_selectors env selectors w of
           (Inl e, w') \<Rightarrow> (Inl e, w')
         | (Inr (Some sel), w') \<Rightarrow> (Inr (Some sel), w')
         | (Inr None, w') \<Rightarrow>
             (case sleep env POLL_MS w' of
                (Inl e, w'') \<Rightarrow> (Inl e, w'')
              | (Inr u, w'') \<Rightarrow> wait_for_any_visible_loop env selectors deadline w''))
      else (Inr None, w))"
  by pat_completeness auto
termination
proof (relation "measure (\<lambda>(env, selectors, deadline, w). deadline - clock w)", goal_cases)
  case 1
  show ?case by simp
next
  case (2 env selectors deadline w x1 w' r x2 w'' u)
  from 2(2) have "clock w \<le> clock w'"
    by (metis poll_selectors_clock)
  moreover from 2(5,6) have "clock w' + POLL_MS \<le> clock w''"
    by (metis sleep_clock_done)
  ultimately show ?case using 2(1) by (simp add: POLL_MS_def)
qed

declare wait_for_any_visible_loop.simps [simp del]

definition wait_for_any_visible ::
  "env \<Rightarrow> string list \<Rightarrow> nat \<Rightarrow> world \<Rightarrow> (exn + string option) \<times> world" where
  "wait_for_any_visible env selectors max_ms w =
     wait_for_any_visible_loop env selectors (clock w + max_ms) w"

section \<open>The step-5 race (lines 449-476)\<close>

definition get_link_selectors :: "string list" where
  "get_link_selectors =
     [''a.get-link'',
      ''a.btn.get-link'',
      ''a.btn-success.get-link'',
      ''a:has-text('Get Link')'',
      ''div:has(a.get-link) a'',
      ''a[href*='mosco.co.in'][class*='get-link']'',
      ''xpath=//a[contains(@class,'get-link') or normalize-space(text())='Get Link']'']"

definition step5_selectors :: "string list" where
  "step5_selectors =
     [''a#wpsafelinkhuman[href*='mtc1.heygirlish.com']'',
      ''a#wpsafelinkhuman'',
      ''a[onclick*='wpsafehuman']'',
      ''img[alt='human verification']'',
      ''xpath=//a[@id='wpsafelinkhuman']'']"

text \<open>
  The two tasks and what each is once \<open>asyncio.wait\<close> has returned and the pending
  ones have been cancelled and awaited: done, with the value or the exception of
  \<open>wait_for_any_visible\<close>, or cancelled. \<open>task_result\<close> is \<open>Task.result()\<close>, which
  raises \<open>CancelledError\<close> on a cancelled task and re-raises the exception of a task
  that failed.
\<close>

datatype task = GetTask | Step5Task

datatype task_state = TDone "exn + string option" | TCancelled

fun task_result :: "task_state \<Rightarrow> exn + string option" where
  "task_result (TDone r) = r"
| "task_result TCancelled = Inl CancelledError"

record race_result =
  winner :: task
  get_task :: task_state
  step5_task :: task_state

text \<open>
  Both tasks poll the page from the moment they are created. Each is run here on
  its own copy of the world; the task whose run ends at the earlier clock reading is
  the one in \<open>done\<close>, and the other, still pending, is cancelled. When both end at the
  same reading both are in \<open>done\<close>, and \<open>next(iter(done))\<close> takes the first element
  of a Python set of two task objects, an order the language leaves open: the
  environment's answer to \<open>AsyncioWait\<close> decides it (\<open>None\<close> puts \<open>get_task\<close>
  first). That answer may also be an exception, when the worker itself is cancelled
  while it waits. The world goes on from the first finisher's copy.
\<close>

definition race :: "env \<Rightarrow> world \<Rightarrow> (exn + race_result) \<times> world" where
  "race env w =
     (case wait_for_any_visible env get_link_selectors MAX_FIND_MS w of
        (rg, wg) \<Rightarrow>
     (case wait_for_any_visible env step5_selectors MAX_FIND_MS w of
        (rs, ws) \<Rightarrow>
     (case call env AsyncioWait (if clock wg \<le> clock ws then wg else ws) of
        (Inl e, w') \<Rightarrow> (Inl e, w')
      | (Inr first, w') \<Rightarrow>
          if clock wg < clock ws then
            (Inr \<lparr>winner = GetTask, get_task = TDone rg, step5_task = TCancelled\<rparr>, w')
          else if clock ws < clock wg then
            (Inr \<lparr>winner = Step5Task, get_task = TCancelled, step5_task = TDone rs\<rparr>, w')
          else
            (Inr \<lparr>winner = (if first = None then GetTask else Step5Task),
                  get_task = TDone rg, step5_task = TDone rs\<rparr>, w'))))"

text \<open>The truth value of an \<open>Optional[str]\<close>.\<close>

fun truthy :: "string option \<Rightarrow> bool" where
  "truthy None = False"
| "truthy (Some s) = (s \<noteq> [])"

text \<open>How \<open>g\<close> and \<open>s5\<close> print inside the f-string of line 511.\<close>

fun show_outcome :: "exn + string option \<Rightarrow> string" where
  "show_outcome (Inl e) = str_exn e"
| "show_outcome (Inr None) = ''None''"
| "show_outcome (Inr (Some s)) = s"

definition neither_message :: "exn + string option \<Rightarrow> exn + string option \<Rightarrow> string" where
  "neither_message g s5 =
     ''Neither step 5 nor step 8 clickable at this time. get_link='' @ show_outcome g
       @ '', step5='' @ show_outcome s5"

text \<open>
  Lines 502-511, the \<open>else\<close> branch: \<open>try: g = get_task.result() except Exception as
  e: g = e\<close>, the same for \<open>s5\<close>, then \<open>raise RuntimeError\<close>. An exception that is
  not an \<open>Exception\<close> leaves the branch as it is.
\<close>

definition else_branch :: "race_result \<Rightarrow> exn" where
  "else_branch rr =
     (case task_result (get_task rr) of
        Inl e \<Rightarrow>
          if is_Exception e then
            (case task_result (step5_task rr) of
               Inl e' \<Rightarrow>
                 if is_Exception e' then RuntimeError (neither_message (Inl e) (Inl e'))
                 else e'
             | Inr v' \<Rightarrow> RuntimeError (neither_message (Inl e) (Inr v')))
          else e
      | Inr v \<Rightarrow>
          (case task_result (step5_task rr) of
             Inl e' \<Rightarrow>
               if is_Exception e' then RuntimeError (neither_message (Inr v) (Inl e'))
               else e'
           | Inr v' \<Rightarrow> RuntimeError (neither_message (Inr v) (Inr v'))))"

datatype path = FastPath | VerifyPath

text \<open>
  Lines 478, 492, 502: \<open>if winner is get_task and get_task.result()\<close>,
  \<open>elif winner is step5_task and step5_task.result()\<close>, \<open>else\<close>.
\<close>

definition elif_branch :: "race_result \<Rightarrow> exn + path" where
  "elif_branch rr =
     (if winner rr = Step5Task then
        (case task_result (step5_task rr) of
           Inl e \<Rightarrow> Inl e
         | Inr v \<Rightarrow> if truthy v then Inr VerifyPath else Inl (else_branch rr))
      else Inl (else_branch rr))"

definition choose_branch :: "race_result \<Rightarrow> exn + path" where
  "choose_branch rr =
     (if winner rr = GetTask then
        (case task_result (get_task rr) of
           Inl e \<Rightarrow> Inl e
         | Inr v \<Rightarrow> if truthy v then Inr FastPath else elif_branch rr)
      else elif_branch rr)"

section \<open>The workflow: \<open>run_once\<close> (lines 228-577)\<close>

text \<open>
  What \<open>run_once\<close> holds while it runs: the world, the \<open>InstanceState\<close> it was
  given (it writes \<open>current_step\<close>), the list \<open>results\<close>, and whether \<open>browser\<close> and
  \<open>context\<close> are set (\<open>is not None\<close>).
\<close>

record run_state =
  world_of :: world
  state :: InstanceState
  results :: "StepResult list"
  has_browser :: bool
  has_context :: bool

definition on_world ::
  "(world \<Rightarrow> (exn + 'a) \<times> world) \<Rightarrow> run_state \<Rightarrow> (exn + 'a) \<times> run_state" where
  "on_world m s = (case m (world_of s) of (r, w') \<Rightarrow> (r, s\<lparr>world_of := w'\<rparr>))"

definition set_step :: "string \<Rightarrow> run_state \<Rightarrow> (exn + unit) \<times> run_state" where
  "set_step label s = (Inr (), s\<lparr>state := (state s)\<lparr>current_step := label\<rparr>\<rparr>)"

definition append_result ::
  "string \<Rightarrow> string \<Rightarrow> string \<Rightarrow> run_state \<Rightarrow> (exn + unit) \<times> run_state" where
  "append_result name st d s =
     (Inr (), s\<lparr>results := results s @ [\<lparr>step = name, status = st, detail = d\<rparr>]\<rparr>)"

text \<open>Statements one after another; an exception ends them.\<close>

fun seq :: "('s \<Rightarrow> (exn + unit) \<times> 's) list \<Rightarrow> 's \<Rightarrow> (exn + unit) \<times> 's" where
  "seq [] s = (Inr (), s)"
| "seq (m # ms) s =
     (case m s of
        (Inl e, s') \<Rightarrow> (Inl e, s')
      | (Inr u, s') \<Rightarrow> seq ms s')"

text \<open>
  Lines 237-299: launch the browser; on an \<open>Exception\<close> install chromium
  (\<open>subprocess.run\<close>) and launch again.
\<close>

definition set_browser :: "run_state \<Rightarrow> (exn + unit) \<times> run_state" where
  "set_browser s = (Inr (), s\<lparr>has_browser := True\<rparr>)"

definition set_context :: "run_state \<Rightarrow> (exn + unit) \<times> run_state" where
  "set_context s = (Inr (), s\<lparr>has_context := True\<rparr>)"

definition launch_browser :: "env \<Rightarrow> run_state \<Rightarrow> (exn + unit) \<times> run_state" where
  "launch_browser env s =
     (case on_world (perform env Launch) s of
        (Inr u, s') \<Rightarrow> set_browser s'
      | (Inl e, s') \<Rightarrow>
          if is_Exception e then
            seq [on_world (perform env InstallChromium),
                 on_world (perform env Launch),
                 set_browser] s'
          else (Inl e, s'))"

text \<open>Lines 301-389: profile, context, the two init scripts, page, route, evaluate.\<close>

definition session_setup :: "env \<Rightarrow> run_state \<Rightarrow> (exn + unit) \<times> run_state" where
  "session_setup env =
     seq [on_world (perform env RandomProfile),
          on_world (perform env NewContext),
          set_context,
          on_world (perform env AddInitScript),
          on_world (perform env AddInitScript),
          on_world (perform env NewPage),
          on_world (perform env Route),
          on_world (perform env PageEvaluate)]"

definition step_open_url :: "env \<Rightarrow> string \<Rightarrow> run_state \<Rightarrow> (exn + unit) \<times> run_state" where
  "step_open_url env url =
     seq [set_step ''open url'',
          on_world (perform env (Goto url MAX_WAIT)),
          on_world (wait_for_load env MAX_WAIT),
          append_result ''Open URL'' ''OK'' url]"

definition step2 :: "env \<Rightarrow> run_state \<Rightarrow> (exn + unit) \<times> run_state" where
  "step2 env =
     seq [set_step ''step 2: mtc2 verify'',
          on_world (hard_click env
            ''a#wpsafelinkhuman[href*='mtc2.smsopdappointment.com']''
            ''human verification (mtc2)''
            [''a#wpsafelinkhuman'',
             ''a[onclick*='wpsafehuman']'',
             ''img[alt='human verification']'',
             ''a:has(img[alt='human verification'])'',
             ''xpath=//a[@id='wpsafelinkhuman']'']
            False),
          on_world (wait_for_load env MAX_WAIT),
          append_result ''Step 2'' ''OK'' []]"

definition step3 :: "env \<Rightarrow> run_state \<Rightarrow> (exn + unit) \<times> run_state" where
  "step3 env =
     seq [set_step ''step 3: mtc2 generate'',
          on_world (hard_click env
            ''img[alt*='GENERATE LINK']''
            ''generate link (mtc2)''
            [''img[alt*='Generate']'',
             ''img[src*='generate']'',
             ''img[alt*='CLICK 2X FOR GENERATE LINK']'',
             ''xpath=//img[contains(@alt,'GENERATE') or contains(@src,'generate')]'']
            True),
          on_world (wait_for_load env MAX_WAIT),
          append_result ''Step 3'' ''OK'' []]"

definition step4 :: "env \<Rightarrow> run_state \<Rightarrow> (exn + unit) \<times> run_state" where
  "step4 env =
     seq [set_step ''step 4: mtc2 target'',
          on_world (hard_click env
            ''a:has(img#image3[alt*='DOWNLOAD LINK'])''
            ''download link (mtc2)''
            [''img#image3[alt*='DOWNLOAD LINK']'',
             ''img[src*='target']'',
             ''a[rel='nofollow'] img#image3'',
             ''xpath=//img[@id='image3' and contains(@alt,'DOWNLOAD')]'']
            False),
          on_world (wait_for_load env MAX_WAIT),
          append_result ''Step 4'' ''OK'' []]"

text \<open>Lines 479-491, the fast path, up to its \<open>return results\<close>.\<close>

definition fast_path :: "env \<Rightarrow> run_state \<Rightarrow> (exn + unit) \<times> run_state" where
  "fast_path env =
     seq [set_step ''step 8: pre-wait load + 5s'',
          on_world (wait_for_load env MAX_WAIT),
          on_world (sleep env 5000),
          on_world (hard_click env (hd get_link_selectors) ''Get Link final''
            (tl get_link_selectors) False),
          on_world (sleep env 1000),
          append_result ''Step 5-8 fast path'' ''OK''
            ''Get Link appeared first; waited 5s before click'',
          set_step ''closing'']"

text \<open>Lines 493-501.\<close>

definition step5_verify :: "env \<Rightarrow> run_state \<Rightarrow> (exn + unit) \<times> run_state" where
  "step5_verify env =
     seq [set_step ''step 5: mtc1 verify click'',
          on_world (hard_click env (hd step5_selectors) ''human verification (mtc1)''
            (tl step5_selectors) False),
          on_world (wait_for_load env MAX_WAIT),
          append_result ''Step 5'' ''OK'' []]"

definition step6 :: "env \<Rightarrow> run_state \<Rightarrow> (exn + unit) \<times> run_state" where
  "step6 env =
     seq [set_step ''step 6: mtc1 generate'',
          on_world (hard_click env
            ''img[alt*='GENERATE LINK']''
            ''generate link (mtc1)''
            [''img[alt*='Generate']'',
             ''img[src*='generate']'',
             ''img[alt*='CLICK 2X FOR GENERATE LINK']'',
             ''xpath=//img[contains(@alt,'GENERATE') or contains(@src,'generate')]'']
            True),
          on_world (wait_for_load env MAX_WAIT),
          append_result ''Step 6'' ''OK'' []]"

definition step7 :: "env \<Rightarrow> run_state \<Rightarrow> (exn + unit) \<times> run_state" where
  "step7 env =
     seq [set_step ''step 7: mtc1 target'',
          on_world (hard_click env
            ''a:has(img#image3[alt*='DOWNLOAD LINK'])''
            ''download link (mtc1)''
            [''img#image3[alt*='DOWNLOAD LINK']'',
             ''img[src*='target']'',
             ''a[rel='nofollow'] img#image3'',
             ''xpath=//img[@id='image3' and contains(@alt,'DOWNLOAD')]'']
            False),
          on_world (wait_for_load env MAX_WAIT),
          append_result ''Step 7'' ''OK'' []]"

definition step8 :: "env \<Rightarrow> run_state \<Rightarrow> (exn + unit) \<times> run_state" where
  "step8 env =
     seq [set_step ''step 8: pre-wait load + 5s'',
          on_world (wait_for_load env MAX_WAIT),
          on_world (sleep env 5000),
          on_world (hard_click env
            ''a.get-link''
            ''Get Link final''
            [''a.btn.get-link'',
             ''a.btn-success.get-link'',
             ''a:has-text('Get Link')'',
             ''div:has(a.get-link) a'',
             ''a[href*='mosco.co.in'][class*='get-link']'',
             ''xpath=//a[contains(@class,'get-link') or normalize-space(text())='Get Link']'']
            False),
          on_world (sleep env 1000),
          append_result ''Step 8'' ''OK'' ''Waited 5s before click; 1s after click'',
          set_step ''closing'']"

definition verify_path :: "env \<Rightarrow> run_state \<Rightarrow> (exn + unit) \<times> run_state" where
  "verify_path env = seq [step5_verify env, step6 env, step7 env, step8 env]"

text \<open>Lines 447-568: the race and the branch it selects.\<close>

definition after_race :: "env \<Rightarrow> race_result \<Rightarrow> run_state \<Rightarrow> (exn + unit) \<times> run_state" where
  "after_race env rr s =
     (case choose_branch rr of
        Inl e \<Rightarrow> (Inl e, s)
      | Inr FastPath \<Rightarrow> fast_path env s
      | Inr VerifyPath \<Rightarrow> verify_path env s)"

definition step5_onwards :: "env \<Rightarrow> run_state \<Rightarrow> (exn + unit) \<times> run_state" where
  "step5_onwards env =
     bind_exn (set_step ''step 5 watch: mtc1 verify vs get-link'') (\<lambda>_.
     bind_exn (on_world (race env)) (after_race env))"

text \<open>
  The body of the \<open>try\<close>, lines 237-568: what comes before the race (lines 237-444),
  then the race and what follows it.
\<close>

definition steps_1_to_4 :: "env \<Rightarrow> string \<Rightarrow> run_state \<Rightarrow> (exn + unit) \<times> run_state" where
  "steps_1_to_4 env url =
     seq [launch_browser env,
          session_setup env,
          step_open_url env url,
          step2 env,
          step3 env,
          step4 env]"

definition try_block :: "env \<Rightarrow> string \<Rightarrow> run_state \<Rightarrow> (exn + unit) \<times> run_state" where
  "try_block env url = seq [steps_1_to_4 env url, step5_onwards env]"

text \<open>
  \<open>f"Elapsed: {elapsed:.1f}s"\<close>. The clock of the model counts whole milliseconds;
  \<open>elapsed\<close> is the double nearest to that many thousandths of a second, and
  \<open>.1f\<close> prints the decimal with one digit nearest to the double, a tie going to the
  even digit. So 6850 ms, whose double lies just below 6.85, print as \<open>6.8\<close>.
  \<open>round_half_even p q\<close> is the integer nearest to \<open>p / q\<close>; \<open>binade\<close> finds the
  power of two that brings the quotient into the range of a 53-bit mantissa, for any
  time below \<open>2 ^ 52\<close> seconds.
\<close>

fun show_nat :: "nat \<Rightarrow> string" where
  "show_nat n =
     (if n < 10 then [char_of (48 + n)]
      else show_nat (n div 10) @ [char_of (48 + n mod 10)])"

declare show_nat.simps [simp del]

definition round_half_even :: "nat \<Rightarrow> nat \<Rightarrow> nat" where
  "round_half_even p q =
     (let n = p div q; r = p mod q
      in if 2 * r < q then n
         else if q < 2 * r then n + 1
         else if even n then n else n + 1)"

fun binade :: "nat \<Rightarrow> nat \<Rightarrow> nat" where
  "binade k p =
     (if k = 0 \<or> 1000 * 2 ^ 52 \<le> p then 0 else Suc (binade (k - 1) (2 * p)))"

declare binade.simps [simp del]

definition elapsed_tenths :: "nat \<Rightarrow> nat" where
  "elapsed_tenths ms =
     (let e = binade 63 ms;
          mantissa = round_half_even (ms * 2 ^ e) 1000
      in round_half_even (10 * mantissa) (2 ^ e))"

definition elapsed_detail :: "nat \<Rightarrow> string" where
  "elapsed_detail ms =
     (let tenths = elapsed_tenths ms
      in ''Elapsed: '' @ show_nat (tenths div 10) @ ''.'' @ show_nat (tenths mod 10) @ ''s'')"

lemma elapsed_detail_examples:
  "elapsed_detail 6850 = ''Elapsed: 6.8s'' \<and>
   elapsed_detail 6851 = ''Elapsed: 6.9s'' \<and>
   elapsed_detail 250 = ''Elapsed: 0.2s'' \<and>
   elapsed_detail 750 = ''Elapsed: 0.8s'' \<and>
   elapsed_detail 61240 = ''Elapsed: 61.2s'' \<and>
   elapsed_detail 0 = ''Elapsed: 0.0s''"
proof -
  have "elapsed_tenths 6850 = 68" "elapsed_tenths 6851 = 69" "elapsed_tenths 250 = 2"
    "elapsed_tenths 750 = 8" "elapsed_tenths 61240 = 612" "elapsed_tenths 0 = 0"
    by (simp_all add: elapsed_tenths_def round_half_even_def Let_def binade.simps)
  then show ?thesis
    by (simp add: elapsed_detail_def Let_def show_nat.simps char_of_def bit_Suc_0_iff)
qed

text \<open>
  Lines 569-577, the \<open>finally\<close>: each close under \<open>contextlib.suppress(Exception)\<close>,
  then the \<open>Done\<close> entry. \<open>r\<close> is how the \<open>try\<close> ended; an exception that is not
  an \<open>Exception\<close>, raised by a close, replaces it and skips the rest.
\<close>

definition close_context :: "env \<Rightarrow> run_state \<Rightarrow> (exn + unit) \<times> run_state" where
  "close_context env s =
     (if has_context s then on_world (attempt env ContextClose) s else (Inr (), s))"

definition close_browser :: "env \<Rightarrow> run_state \<Rightarrow> (exn + unit) \<times> run_state" where
  "close_browser env s =
     (if has_browser s then on_world (attempt env BrowserClose) s else (Inr (), s))"

definition append_done :: "nat \<Rightarrow> run_state \<Rightarrow> (exn + unit) \<times> run_state" where
  "append_done start_time s =
     append_result ''Done'' ''OK'' (elapsed_detail (clock (world_of s) - start_time)) s"

definition finally_block ::
  "env \<Rightarrow> nat \<Rightarrow> exn + unit \<Rightarrow> run_state \<Rightarrow> (exn + unit) \<times> run_state" where
  "finally_block env start_time r s =
     (case seq [close_context env, close_browser env, append_done start_time] s of
        (Inl e, s') \<Rightarrow> (Inl e, s')
      | (Inr u, s') \<Rightarrow> (r, s'))"

text \<open>
  \<open>run_session\<close> is the whole of \<open>run_once\<close> with its local state kept:
  \<open>async with async_playwright()\<close> around the \<open>try\<close> and its \<open>finally\<close>. The
  context manager's exit runs however the body ended, and an exception of its own
  replaces the body's outcome.
\<close>

definition enter :: "env \<Rightarrow> InstanceState \<Rightarrow> world \<Rightarrow> (exn + unit) \<times> run_state" where
  "enter env st w =
     bind_exn (on_world (perform env PlaywrightStart)) (\<lambda>_. set_step ''launching'')
       \<lparr>world_of = w, state = st, results = [], has_browser = False, has_context = False\<rparr>"

definition run_session ::
  "env \<Rightarrow> string \<Rightarrow> InstanceState \<Rightarrow> world \<Rightarrow> (exn + unit) \<times> run_state" where
  "run_session env url st w =
     (case enter env st w of
        (Inl e, s1) \<Rightarrow> (Inl e, s1)
      | (Inr u, s1) \<Rightarrow>
          (case try_block env url s1 of
             (r, s2) \<Rightarrow>
          (case finally_block env (clock w) r s2 of
             (r', s3) \<Rightarrow>
          (case on_world (perform env PlaywrightStop) s3 of
             (Inl e, s4) \<Rightarrow> (Inl e, s4)
           | (Inr u', s4) \<Rightarrow> (r', s4)))))"

text \<open>
  What the caller of \<open>run_once\<close> gets: the exception, or the list \<open>results\<close>. The
  \<open>return results\<close> hands over the list object itself, and the \<open>finally\<close> appends
  to that same object before the caller sees it, so the list returned is the list as
  the \<open>finally\<close> left it. The \<open>InstanceState\<close> and the world are returned as the
  run left them.
\<close>

definition run_once ::
  "env \<Rightarrow> string \<Rightarrow> InstanceState \<Rightarrow> world
   \<Rightarrow> (exn + StepResult list) \<times> InstanceState \<times> world" where
  "run_once env url st w =
     (case run_session env url st w of
        (Inl e, s) \<Rightarrow> (Inl e, state s, world_of s)
      | (Inr u, s) \<Rightarrow> (Inr (results s), state s, world_of s))"

section \<open>The worker: \<open>runner_task\<close> (lines 635-659)\<close>

text \<open>
  \<open>random.choice(urls_list)\<close>. \<open>main\<close> leaves the program before any worker starts
  when the list is empty; the choice from an empty list raises \<open>IndexError\<close>.
\<close>

definition pick_url :: "env \<Rightarrow> string list \<Rightarrow> world \<Rightarrow> (exn + string) \<times> world" where
  "pick_url env urls w =
     (case call env RandomChoice w of
        (r, w') \<Rightarrow>
          if urls = [] then (Inl (Error ''IndexError''), w')
          else (Inr (urls ! ((case r of Inr (Some i) \<Rightarrow> i | _ \<Rightarrow> 0) mod length urls)), w'))"

text \<open>
  One pass of the \<open>while True\<close>. The first component of the result is \<open>None\<close> when
  the loop goes round again and \<open>Some e\<close> when the exception \<open>e\<close> leaves the loop and
  ends the task. The cooldown sleep of the success branch stands inside the
  \<open>try\<close>, so an \<open>Exception\<close> from it would run the handler as well.
\<close>

definition on_failure ::
  "env \<Rightarrow> exn \<Rightarrow> InstanceState \<Rightarrow> world \<Rightarrow> exn option \<times> InstanceState \<times> world" where
  "on_failure env e st w =
     (if is_Exception e then
        (let st' = st\<lparr>runs := runs st + 1, failures := failures st + 1,
                      inst_status := ''error/restarting'', last_detail := str_exn e\<rparr>
         in case sleep env 500 w of
              (Inl e', w') \<Rightarrow> (Some e', st', w')
            | (Inr u, w') \<Rightarrow> (None, st', w'))
      else (Some e, st, w))"

definition runner_iteration ::
  "env \<Rightarrow> string list \<Rightarrow> InstanceState \<Rightarrow> world \<Rightarrow> exn option \<times> InstanceState \<times> world" where
  "runner_iteration env urls st w =
     (let st1 = st\<lparr>inst_status := ''running'', current_step := ''pick url''\<rparr>
      in case pick_url env urls w of
           (Inl e, w1) \<Rightarrow> (Some e, st1, w1)
         | (Inr url, w1) \<Rightarrow>
             (let st2 = st1\<lparr>last_url := url, started_at := clock w1\<rparr>
              in case run_once env url st2 w1 of
                   (Inr res, st3, w2) \<Rightarrow>
                     (let st4 = st3\<lparr>runs := runs st3 + 1, successes := successes st3 + 1,
                                    last_detail := (if res \<noteq> [] then detail (last res) else []),
                                    inst_status := ''idle'', current_step := ''sleep 1s''\<rparr>;
                          w3 = w2\<lparr>total_done := total_done w2 + 1\<rparr>
                      in case sleep env 1000 w3 of
                           (Inl e, w4) \<Rightarrow> on_failure env e st4 w4
                         | (Inr u, w4) \<Rightarrow> (None, st4, w4))
                 | (Inl e, st3, w2) \<Rightarrow> on_failure env e st3 w2))"

text \<open>
  The \<open>while True\<close> loop, \<open>n\<close> passes of it at most: \<open>None\<close> says the worker is still
  looping after them, \<open>Some e\<close> that it ended with \<open>e\<close>.
\<close>

fun runner_task ::
  "nat \<Rightarrow> env \<Rightarrow> string list \<Rightarrow> InstanceState \<Rightarrow> world \<Rightarrow> exn option \<times> InstanceState \<times> world" where
  "runner_task 0 env urls st w = (None, st, w)"
| "runner_task (Suc n) env urls st w =
     (case runner_iteration env urls st w of
        (None, st', w') \<Rightarrow> runner_task n env urls st' w'
      | (Some e, st', w') \<Rightarrow> (Some e, st', w'))"

section \<open>What the trace gains\<close>

text \<open>
  The calls that neither open nor close a browser or a context and are not the
  mark of a \<open>hard_click\<close>. \<open>grows w w'\<close> says that \<open>w'\<close> comes from \<open>w\<close> by
  such calls only.
\<close>

fun plain_op :: "op \<Rightarrow> bool" where
  "plain_op Launch = False"
| "plain_op NewContext = False"
| "plain_op ContextClose = False"
| "plain_op BrowserClose = False"
| "plain_op (HardClick d) = False"
| "plain_op _ = True"

definition grows :: "world \<Rightarrow> world \<Rightarrow> bool" where
  "grows w w' =
     (total_done w' = total_done w \<and>
      (\<exists>X. trace w' = X @ trace w \<and> list_all (\<lambda>e. plain_op (fst e)) X))"

lemma grows_refl: "grows w w"
  by (simp add: grows_def)

lemma grows_trans: "grows w w1 \<Longrightarrow> grows w1 w2 \<Longrightarrow> grows w w2"
  by (auto simp: grows_def)

lemma grows_event:
  "plain_op a \<Longrightarrow> grows w (w\<lparr>clock := c, trace := (a, r) # trace w\<rparr>)"
  by (simp add: grows_def)

lemma call_grows: "call env a w = (r, w') \<Longrightarrow> plain_op a \<Longrightarrow> grows w w'"
  by (auto simp: call_def grows_event split: prod.splits)

lemma sleep_grows: "sleep env ms w = (r, w') \<Longrightarrow> grows w w'"
  by (auto simp: sleep_def grows_event split: prod.splits sum.splits)

lemma random_sleep_grows: "random_sleep env lo hi w = (r, w') \<Longrightarrow> grows w w'"
  by (auto simp: random_sleep_def grows_event split: prod.splits sum.splits)

lemma perform_grows: "perform env a w = (r, w') \<Longrightarrow> plain_op a \<Longrightarrow> grows w w'"
  by (auto simp: perform_def split: prod.splits sum.splits dest: call_grows)

lemma attempt_grows: "attempt env a w = (r, w') \<Longrightarrow> plain_op a \<Longrightarrow> grows w w'"
  by (auto simp: attempt_def split: prod.splits sum.splits if_splits dest: call_grows)

lemma bind_exn_grows:
  assumes "bind_exn m f w = (r, w')"
    and "\<And>r1 w1. m w = (r1, w1) \<Longrightarrow> grows w w1"
    and "\<And>a w1 r2 w2. f a w1 = (r2, w2) \<Longrightarrow> grows w1 w2"
  shows "grows w w'"
proof (cases "m w")
  case (Pair r1 w1)
  then have g1: "grows w w1" using assms(2) by simp
  show ?thesis
  proof (cases r1)
    case (Inl e)
    with Pair assms(1) have "w' = w1" by (simp add: bind_exn_def)
    with g1 show ?thesis by simp
  next
    case (Inr a)
    with Pair assms(1) have "f a w1 = (r, w')" by (simp add: bind_exn_def)
    then have "grows w1 w'" using assms(3) by simp
    with g1 show ?thesis by (rule grows_trans)
  qed
qed

lemma mouse_sequence_grows: "mouse_sequence env w = (r, w') \<Longrightarrow> grows w w'"
  unfolding mouse_sequence_def
  by (erule bind_exn_grows | erule perform_grows random_sleep_grows | simp)+

lemma try_strategy_grows:
  assumes "try_strategy m le w = (f, w')"
    and "\<And>r1 w1. m w = (r1, w1) \<Longrightarrow> grows w w1"
  shows "grows w w'"
  using assms by (auto simp: try_strategy_def split: prod.splits sum.splits if_splits)

lemma or_else_grows:
  assumes "or_else s1 s2 le w = (f, w')"
    and "\<And>f1 w1. s1 le w = (f1, w1) \<Longrightarrow> grows w w1"
    and "\<And>le1 w1 f2 w2. s2 le1 w1 = (f2, w2) \<Longrightarrow> grows w1 w2"
  shows "grows w w'"
proof (cases "s1 le w")
  case (Pair f1 w1)
  then have g1: "grows w w1" using assms(2) by simp
  show ?thesis
  proof (cases f1)
    case (Next le1')
    with Pair assms(1) have "s2 le1' w1 = (f, w')" by (simp add: or_else_def)
    then have "grows w1 w'" using assms(3) by simp
    with g1 show ?thesis by (rule grows_trans)
  qed (use Pair assms(1) g1 in \<open>auto simp: or_else_def\<close>)
qed

lemma el_click_grows: "el_click env el force le w = (f, w') \<Longrightarrow> grows w w'"
  unfolding el_click_def by (erule try_strategy_grows) (erule perform_grows, simp)

lemma el_dblclick_grows: "el_dblclick env el d le w = (f, w') \<Longrightarrow> grows w w'"
  unfolding el_dblclick_def
  by (auto simp: grows_refl split: if_splits elim!: try_strategy_grows perform_grows)

lemma mouse_click_grows:
  assumes "mouse_click env el le w = (f, w')"
  shows "grows w w'"
proof (cases "call env (BoundingBox el) w")
  case (Pair r1 w1)
  then have g1: "grows w w1" by (rule call_grows) simp
  from assms Pair have "w' = w1 \<or> try_strategy (mouse_sequence env) le w1 = (f, w')"
    by (auto simp: mouse_click_def split: sum.splits option.splits if_splits)
  then show ?thesis
  proof
    assume "w' = w1"
    with g1 show ?thesis by simp
  next
    assume "try_strategy (mouse_sequence env) le w1 = (f, w')"
    then have "grows w1 w'" by (rule try_strategy_grows) (erule mouse_sequence_grows)
    with g1 show ?thesis by (rule grows_trans)
  qed
qed

lemma page_click_grows: "page_click env sel le w = (f, w') \<Longrightarrow> grows w w'"
  unfolding page_click_def by (erule try_strategy_grows) (erule perform_grows, simp)

lemma js_click_grows: "js_click env el le w = (f, w') \<Longrightarrow> grows w w'"
  unfolding js_click_def by (erule try_strategy_grows) (erule perform_grows, simp)

lemma click_strategies_grows:
  assumes "click_strategies env sel el d le w = (f, w')"
  shows "grows w w'"
proof (cases "attempt env (ScrollIntoView el) w")
  case (Pair r1 w1)
  then have g1: "grows w w1" by (rule attempt_grows) simp
  show ?thesis
  proof (cases r1)
    case (Inl e)
    with Pair assms have "w' = w1" by (simp add: click_strategies_def)
    with g1 show ?thesis by simp
  next
    case (Inr u)
    with Pair assms have
      "or_else (el_click env el True)
         (or_else (el_click env el False)
         (or_else (el_dblclick env el d)
         (or_else (mouse_click env el)
         (or_else (page_click env sel) (js_click env el))))) le w1 = (f, w')"
      by (simp add: click_strategies_def)
    then have "grows w1 w'"
      by (elim or_else_grows el_click_grows el_dblclick_grows mouse_click_grows
          page_click_grows js_click_grows)
    with g1 show ?thesis by (rule grows_trans)
  qed
qed

lemma try_selector_grows:
  assumes "try_selector env sel d le w = (f, w')"
  shows "grows w w'"
proof (cases "call env (WaitForSelector sel POLL_MS) w")
  case (Pair r1 w1)
  then have g1: "grows w w1" by (rule call_grows) simp
  from assms Pair have
    "w' = w1 \<or> (\<exists>r2. sleep env POLL_MS w1 = (r2, w')) \<or>
     (\<exists>el. click_strategies env sel el d le w1 = (f, w'))"
    by (auto simp: try_selector_def split: sum.splits option.splits if_splits prod.splits)
  then have "grows w1 w'"
    by (auto simp: grows_refl dest: sleep_grows click_strategies_grows)
  with g1 show ?thesis by (rule grows_trans)
qed

lemma for_selectors_grows:
  "for_selectors env sels d le w = (f, w') \<Longrightarrow> grows w w'"
proof (induction sels arbitrary: le w)
  case Nil
  then show ?case by (simp add: grows_refl)
next
  case (Cons sel sels)
  obtain f1 w1 where ts: "try_selector env sel d le w = (f1, w1)"
    by (cases "try_selector env sel d le w")
  then have g1: "grows w w1" by (rule try_selector_grows)
  show ?case
  proof (cases f1)
    case (Next le1')
    with ts Cons.prems have "for_selectors env sels d le1' w1 = (f, w')" by simp
    then have "grows w1 w'" by (rule Cons.IH)
    with g1 show ?thesis by (rule grows_trans)
  qed (use ts Cons.prems g1 in auto)
qed

lemma hard_click_loop_grows:
  "hard_click_loop env sels desc d deadline le w = (r, w') \<Longrightarrow> grows w w'"
proof (induction env sels desc d deadline le w rule: hard_click_loop.induct)
  case (1 env sels desc d deadline le w)
  show ?case
  proof (cases "clock w < deadline")
    case False
    with "1.prems" show ?thesis by (simp add: hard_click_loop.simps grows_refl)
  next
    case True
    obtain f1 w1 where fs: "for_selectors env sels d le w = (f1, w1)"
      by (cases "for_selectors env sels d le w")
    then have g1: "grows w w1" by (rule for_selectors_grows)
    show ?thesis
    proof (cases f1)
      case (Next le1)
      obtain r2 w2 where sl: "sleep env POLL_MS w1 = (r2, w2)"
        by (cases "sleep env POLL_MS w1")
      then have g2: "grows w1 w2" by (rule sleep_grows)
      show ?thesis
      proof (cases r2)
        case (Inl e)
        with True fs Next sl "1.prems" have "w' = w2"
          by (simp add: hard_click_loop.simps)
        with g1 g2 show ?thesis by (auto intro: grows_trans)
      next
        case (Inr u)
        with True fs Next sl "1.prems" have
          "hard_click_loop env sels desc d deadline le1 w2 = (r, w')"
          by (simp add: hard_click_loop.simps)
        with True fs Next sl Inr have "grows w2 w'"
          by (intro "1.IH") auto
        with g1 g2 show ?thesis by (auto intro: grows_trans)
      qed
    qed (use True fs "1.prems" g1 in \<open>auto simp: hard_click_loop.simps\<close>)
  qed
qed

lemma wait_for_load_grows: "wait_for_load env t w = (r, w') \<Longrightarrow> grows w w'"
  unfolding wait_for_load_def
  by (erule bind_exn_grows | erule attempt_grows | simp)+

lemma poll_selectors_grows:
  "poll_selectors env sels w = (r, w') \<Longrightarrow> grows w w'"
proof (induction sels arbitrary: w)
  case Nil
  then show ?case by (simp add: grows_refl)
next
  case (Cons sel sels)
  obtain r1 w1 where c: "call env (WaitForSelector sel POLL_MS) w = (r1, w1)"
    by (cases "call env (WaitForSelector sel POLL_MS) w")
  then have g1: "grows w w1" by (rule call_grows) simp
  from Cons.prems c have "w' = w1 \<or> poll_selectors env sels w1 = (r, w')"
    by (auto split: sum.splits option.splits if_splits)
  then have "grows w1 w'" using Cons.IH [of w1] by (auto simp: grows_refl)
  with g1 show ?case by (rule grows_trans)
qed

lemma wait_for_any_visible_loop_grows:
  "wait_for_any_visible_loop env sels deadline w = (r, w') \<Longrightarrow> grows w w'"
proof (induction env sels deadline w rule: wait_for_any_visible_loop.induct)
  case (1 env sels deadline w)
  show ?case
  proof (cases "clock w < deadline")
    case False
    with "1.prems" show ?thesis by (simp add: wait_for_any_visible_loop.simps grows_refl)
  next
    case True
    obtain r1 w1 where ps: "poll_selectors env sels w = (r1, w1)"
      by (cases "poll_selectors env sels w")
    then have g1: "grows w w1" by (rule poll_selectors_grows)
    show ?thesis
    proof (cases "r1 = Inr None")
      case False
      with True ps "1.prems" have "w' = w1"
        by (auto simp: wait_for_any_visible_loop.simps split: sum.splits option.splits)
      with g1 show ?thesis by simp
    next
      case none: True
      obtain r2 w2 where sl: "sleep env POLL_MS w1 = (r2, w2)"
        by (cases "sleep env POLL_MS w1")
      then have g2: "grows w1 w2" by (rule sleep_grows)
      show ?thesis
      proof (cases r2)
        case (Inl e)
        with True ps none sl "1.prems" have "w' = w2"
          by (simp add: wait_for_any_visible_loop.simps)
        with g1 g2 show ?thesis by (auto intro: grows_trans)
      next
        case (Inr u)
        with True ps none sl "1.prems" have
          "wait_for_any_visible_loop env sels deadline w2 = (r, w')"
          by (simp add: wait_for_any_visible_loop.simps)
        with True ps none sl Inr have "grows w2 w'"
          by (intro "1.IH") auto
        with g1 g2 show ?thesis by (auto intro: grows_trans)
      qed
    qed
  qed
qed

lemma wait_for_any_visible_grows:
  "wait_for_any_visible env sels t w = (r, w') \<Longrightarrow> grows w w'"
  unfolding wait_for_any_visible_def by (rule wait_for_any_visible_loop_grows)

lemma race_grows:
  assumes "race env w = (r, w')"
  shows "grows w w'"
proof -
  obtain rg wg where g: "wait_for_any_visible env get_link_selectors MAX_FIND_MS w = (rg, wg)"
    by (cases "wait_for_any_visible env get_link_selectors MAX_FIND_MS w")
  obtain rs ws where s: "wait_for_any_visible env step5_selectors MAX_FIND_MS w = (rs, ws)"
    by (cases "wait_for_any_visible env step5_selectors MAX_FIND_MS w")
  let ?w1 = "if clock wg \<le> clock ws then wg else ws"
  obtain r2 w2 where c: "call env AsyncioWait ?w1 = (r2, w2)"
    by (cases "call env AsyncioWait ?w1")
  from g s have "grows w ?w1"
    by (auto dest: wait_for_any_visible_grows)
  moreover from c have "grows ?w1 w2" by (rule call_grows) simp
  moreover from assms g s c have "w' = w2"
    by (auto simp: race_def split: sum.splits if_splits)
  ultimately show ?thesis by (auto intro: grows_trans)
qed

text \<open>
  The clicks a world has seen attempted, oldest first, and its session events: the
  launches and the new contexts that succeeded, and every attempt to close one, most
  recent first.
\<close>

fun click_mark :: "op \<times> resp \<Rightarrow> string option" where
  "click_mark (HardClick d, r) = Some d"
| "click_mark _ = None"

definition clicks_attempted :: "world \<Rightarrow> string list" where
  "clicks_attempted w = rev (List.map_filter click_mark (trace w))"

fun session_event :: "op \<times> resp \<Rightarrow> bool" where
  "session_event (Launch, Inr v) = True"
| "session_event (NewContext, Inr v) = True"
| "session_event (ContextClose, r) = True"
| "session_event (BrowserClose, r) = True"
| "session_event _ = False"

definition session_events :: "world \<Rightarrow> (op \<times> resp) list" where
  "session_events w = filter session_event (trace w)"

lemma plain_no_mark: "plain_op (fst e) \<Longrightarrow> click_mark e = None"
  by (cases e, cases "fst e") auto

lemma plain_no_session: "plain_op (fst e) \<Longrightarrow> \<not> session_event e"
  by (cases e, cases "fst e") auto

lemma grows_clicks: "grows w w' \<Longrightarrow> clicks_attempted w' = clicks_attempted w"
proof -
  have "list_all (\<lambda>e. plain_op (fst e)) X \<Longrightarrow> List.map_filter click_mark X = []" for X
    by (induction X) (auto simp: plain_no_mark)
  then show "grows w w' \<Longrightarrow> clicks_attempted w' = clicks_attempted w"
    by (auto simp: grows_def clicks_attempted_def map_filter_def)
qed

lemma grows_session: "grows w w' \<Longrightarrow> session_events w' = session_events w"
proof -
  have "list_all (\<lambda>e. plain_op (fst e)) X \<Longrightarrow> filter session_event X = []" for X
    by (induction X) (auto simp: plain_no_session)
  then show "grows w w' \<Longrightarrow> session_events w' = session_events w"
    by (auto simp: grows_def session_events_def)
qed

lemma hard_click_clicks:
  assumes "hard_click env sel desc many d w = (r, w')"
  shows "clicks_attempted w' = clicks_attempted w @ [desc]"
    and "session_events w' = session_events w"
    and "total_done w' = total_done w"
proof -
  let ?w0 = "w\<lparr>trace := (HardClick desc, Inr None) # trace w\<rparr>"
  from assms have g: "grows ?w0 w'"
    unfolding hard_click_def by (rule hard_click_loop_grows)
  from g have "clicks_attempted w' = clicks_attempted ?w0" by (rule grows_clicks)
  then show "clicks_attempted w' = clicks_attempted w @ [desc]"
    by (simp add: clicks_attempted_def)
  from g have "session_events w' = session_events ?w0" by (rule grows_session)
  then show "session_events w' = session_events w"
    by (simp add: session_events_def)
  from g show "total_done w' = total_done w" by (simp add: grows_def)
qed

section \<open>What every run leaves as it was\<close>

text \<open>
  \<open>frozen st st'\<close>: the two instance states differ in \<open>current_step\<close> at most.
  \<open>carries_on s s'\<close>: from \<open>s\<close> to \<open>s'\<close> the instance state is frozen and the list
  \<open>results\<close> has only gained entries, each with status \<open>OK\<close>.
\<close>

definition frozen :: "InstanceState \<Rightarrow> InstanceState \<Rightarrow> bool" where
  "frozen st st' = (st'\<lparr>current_step := current_step st\<rparr> = st)"

definition carries_on :: "run_state \<Rightarrow> run_state \<Rightarrow> bool" where
  "carries_on s s' =
     (frozen (state s) (state s') \<and>
      (\<exists>rs. results s' = results s @ rs \<and> list_all (\<lambda>r. status r = ''OK'') rs))"

definition steady :: "(run_state \<Rightarrow> (exn + 'a) \<times> run_state) \<Rightarrow> bool" where
  "steady m = (\<forall>s r s'. m s = (r, s') \<longrightarrow> carries_on s s')"

lemma frozen_refl: "frozen st st"
  by (simp add: frozen_def)

lemma frozen_trans: "frozen st st1 \<Longrightarrow> frozen st1 st2 \<Longrightarrow> frozen st st2"
  by (auto simp: frozen_def) (metis InstanceState.update_convs(5) InstanceState.surjective)

lemma frozen_set: "frozen st (st\<lparr>current_step := l\<rparr>)"
  by (simp add: frozen_def)

lemma frozen_counters:
  "frozen st st' \<Longrightarrow> runs st' = runs st \<and> successes st' = successes st \<and> failures st' = failures st"
  by (auto simp: frozen_def) (metis InstanceState.select_convs InstanceState.surjective InstanceState.update_convs(5))+

lemma carries_on_refl: "carries_on s s"
  by (simp add: carries_on_def frozen_refl)

lemma carries_on_trans: "carries_on s s1 \<Longrightarrow> carries_on s1 s2 \<Longrightarrow> carries_on s s2"
  by (auto simp: carries_on_def intro: frozen_trans)

lemma steadyD: "steady m \<Longrightarrow> m s = (r, s') \<Longrightarrow> carries_on s s'"
  by (simp add: steady_def)

lemma steady_on_world: "steady (on_world m)"
  by (auto simp: steady_def on_world_def carries_on_def frozen_refl split: prod.splits)

lemma steady_set_step: "steady (set_step l)"
  by (auto simp: steady_def set_step_def carries_on_def frozen_set)

lemma steady_append_result: "steady (append_result n ''OK'' d)"
  by (auto simp: steady_def append_result_def carries_on_def frozen_refl)

lemma steady_set_browser: "steady set_browser"
  by (auto simp: steady_def set_browser_def carries_on_def frozen_refl)

lemma steady_set_context: "steady set_context"
  by (auto simp: steady_def set_context_def carries_on_def frozen_refl)

lemma steady_seq: "list_all steady ms \<Longrightarrow> steady (seq ms)"
proof (induction ms)
  case Nil
  show ?case by (simp add: steady_def carries_on_refl)
next
  case (Cons m ms)
  then have m: "steady m" and ms: "steady (seq ms)" by simp_all
  show ?case
    unfolding steady_def
  proof (intro allI impI)
    fix s r s'
    assume run: "seq (m # ms) s = (r, s')"
    obtain r1 s1 where m1: "m s = (r1, s1)" by (cases "m s")
    with m have c1: "carries_on s s1" by (rule steadyD)
    from run m1 have "s' = s1 \<or> seq ms s1 = (r, s')"
      by (auto split: sum.splits)
    then have "carries_on s1 s'"
      using ms by (auto simp: carries_on_refl dest: steadyD)
    with c1 show "carries_on s s'" by (rule carries_on_trans)
  qed
qed

lemma steady_bind:
  assumes "steady m" and "\<And>a. steady (f a)"
  shows "steady (bind_exn m f)"
  unfolding steady_def
proof (intro allI impI)
  fix s r s'
  assume run: "bind_exn m f s = (r, s')"
  obtain r1 s1 where m1: "m s = (r1, s1)" by (cases "m s")
  with assms(1) have c1: "carries_on s s1" by (rule steadyD)
  from run m1 have "s' = s1 \<or> (\<exists>a. f a s1 = (r, s'))"
    by (auto simp: bind_exn_def split: sum.splits)
  then have "carries_on s1 s'"
    using assms(2) by (auto simp: carries_on_refl dest: steadyD)
  with c1 show "carries_on s s'" by (rule carries_on_trans)
qed

lemmas steady_basic = steady_on_world steady_set_step steady_append_result
  steady_set_browser steady_set_context

lemma steady_launch_browser: "steady (launch_browser env)"
  unfolding steady_def
proof (intro allI impI)
  fix s r s'
  assume run: "launch_browser env s = (r, s')"
  obtain r1 s1 where l: "on_world (perform env Launch) s = (r1, s1)"
    by (cases "on_world (perform env Launch) s")
  then have c1: "carries_on s s1" by (rule steadyD [OF steady_on_world])
  have again: "steady (seq [on_world (perform env InstallChromium),
      on_world (perform env Launch), set_browser])"
    by (rule steady_seq) (simp add: steady_basic)
  from run l have "s' = s1 \<or> set_browser s1 = (r, s') \<or>
      seq [on_world (perform env InstallChromium),
           on_world (perform env Launch), set_browser] s1 = (r, s')"
    by (auto simp: launch_browser_def split: sum.splits if_splits)
  then have "carries_on s1 s'"
    using again by (auto simp: carries_on_refl dest: steadyD steadyD [OF steady_set_browser])
  with c1 show "carries_on s s'" by (rule carries_on_trans)
qed

lemma steady_steps:
  "steady (session_setup env)" "steady (step_open_url env url)"
  "steady (step2 env)" "steady (step3 env)" "steady (step4 env)"
  "steady (fast_path env)" "steady (step5_verify env)"
  "steady (step6 env)" "steady (step7 env)" "steady (step8 env)"
  unfolding session_setup_def step_open_url_def step2_def step3_def step4_def fast_path_def
    step5_verify_def step6_def step7_def step8_def
  by (rule steady_seq, simp add: steady_basic)+

lemma steady_verify_path: "steady (verify_path env)"
  unfolding verify_path_def by (rule steady_seq) (simp add: steady_steps)

lemma steady_after_race: "steady (after_race env rr)"
  using steady_steps(6) [of env] steady_verify_path [of env]
  by (auto simp: steady_def after_race_def carries_on_refl split: sum.splits path.splits)

lemma steady_step5_onwards: "steady (step5_onwards env)"
  unfolding step5_onwards_def
  by (intro steady_bind steady_basic steady_after_race)

lemma steady_try_block: "steady (try_block env url)"
  unfolding try_block_def steps_1_to_4_def
  by (intro steady_seq)
    (simp add: steady_seq steady_launch_browser steady_steps steady_step5_onwards)

lemma steady_finally_block: "steady (finally_block env t r)"
proof -
  have "steady (close_context env)" "steady (close_browser env)" "steady (append_done t)"
    using steady_on_world [of "attempt env ContextClose"]
      steady_on_world [of "attempt env BrowserClose"] steady_append_result
    by (auto simp: steady_def close_context_def close_browser_def append_done_def
        carries_on_refl)
  then have "steady (seq [close_context env, close_browser env, append_done t])"
    by (intro steady_seq) simp
  then show ?thesis
    by (auto simp: steady_def finally_block_def split: prod.splits sum.splits)
qed

lemma run_session_carries_on:
  assumes "run_session env url st w = (r, s')"
  shows "carries_on
    \<lparr>world_of = w, state = st, results = [], has_browser = False, has_context = False\<rparr> s'"
proof -
  let ?s0 = "\<lparr>world_of = w, state = st, results = [],
    has_browser = False, has_context = False\<rparr>"
  have "steady (bind_exn (on_world (perform env PlaywrightStart)) (\<lambda>_. set_step ''launching''))"
    by (intro steady_bind steady_basic)
  moreover obtain r1 s1 where e: "enter env st w = (r1, s1)" by (cases "enter env st w")
  ultimately have c1: "carries_on ?s0 s1"
    by (auto simp: enter_def dest: steadyD)
  show ?thesis
  proof (cases r1)
    case (Inl e1)
    with e assms have "s' = s1" by (simp add: run_session_def)
    with c1 show ?thesis by simp
  next
    case (Inr u)
    obtain r2 s2 where t: "try_block env url s1 = (r2, s2)" by (cases "try_block env url s1")
    obtain r3 s3 where f: "finally_block env (clock w) r2 s2 = (r3, s3)"
      by (cases "finally_block env (clock w) r2 s2")
    obtain r4 s4 where p: "on_world (perform env PlaywrightStop) s3 = (r4, s4)"
      by (cases "on_world (perform env PlaywrightStop) s3")
    from t have c2: "carries_on s1 s2" by (rule steadyD [OF steady_try_block])
    from f have c3: "carries_on s2 s3" by (rule steadyD [OF steady_finally_block])
    from p have c4: "carries_on s3 s4" by (rule steadyD [OF steady_on_world])
    from assms e Inr t f p have "s' = s4"
      by (auto simp: run_session_def split: sum.splits)
    with c1 c2 c3 c4 show ?thesis by (auto intro: carries_on_trans)
  qed
qed

lemma run_once_frozen:
  assumes "run_once env url st w = (r, st', w')"
  shows "frozen st st'"
proof -
  obtain r0 s' where rs: "run_session env url st w = (r0, s')"
    by (cases "run_session env url st w")
  from rs have "carries_on
    \<lparr>world_of = w, state = st, results = [], has_browser = False, has_context = False\<rparr> s'"
    by (rule run_session_carries_on)
  then have "frozen st (state s')" by (simp add: carries_on_def)
  moreover from assms rs have "st' = state s'"
    by (auto simp: run_once_def split: sum.splits)
  ultimately show ?thesis by simp
qed

lemma run_once_all_ok:
  assumes "run_once env url st w = (Inr rs, st', w')"
  shows "list_all (\<lambda>r. status r = ''OK'') rs"
proof -
  obtain r0 s' where rs: "run_session env url st w = (r0, s')"
    by (cases "run_session env url st w")
  from rs have "carries_on
    \<lparr>world_of = w, state = st, results = [], has_browser = False, has_context = False\<rparr> s'"
    by (rule run_session_carries_on)
  then have "list_all (\<lambda>r. status r = ''OK'') (results s')" by (auto simp: carries_on_def)
  moreover from assms rs have "rs = results s'"
    by (auto simp: run_once_def split: sum.splits)
  ultimately show ?thesis by simp
qed

section \<open>The counters of a worker\<close>

text \<open>
  \<open>counted_once st st'\<close>: \<open>runs\<close> went up by one and exactly one of \<open>successes\<close>
  and \<open>failures\<close> went up by one. \<open>uncounted st st'\<close>: none of the three moved.
\<close>

definition counted_once :: "InstanceState \<Rightarrow> InstanceState \<Rightarrow> bool" where
  "counted_once st st' =
     (runs st' = runs st + 1 \<and>
      (successes st' = successes st + 1 \<and> failures st' = failures st \<or>
       successes st' = successes st \<and> failures st' = failures st + 1))"

definition uncounted :: "InstanceState \<Rightarrow> InstanceState \<Rightarrow> bool" where
  "uncounted st st' =
     (runs st' = runs st \<and> successes st' = successes st \<and> failures st' = failures st)"

text \<open>
  A page that shows every control it is asked for. With \<open>fast\<close> the selectors of the
  get-link group are found after 20 ms and all others after 90 ms; without it the
  other way round. Every other call succeeds after 10 ms.
\<close>

definition page_both :: "bool \<Rightarrow> env" where
  "page_both fast w a =
     (case a of
        WaitForSelector sel t \<Rightarrow>
          (Inr (Some 1), if (sel \<in> set get_link_selectors) = fast then 20 else 90)
      | BoundingBox el \<Rightarrow> (Inr (Some 1), 5)
      | _ \<Rightarrow> (Inr None, 10))"

definition w0 :: world where
  "w0 = \<lparr>clock = 0, trace = [], total_done = 0\<rparr>"

lemma on_failure_counts:
  assumes "on_failure env e st w = (r, st', w')"
  shows "(r = None \<longrightarrow> counted_once st st') \<and> (counted_once st st' \<or> uncounted st st')"
  using assms
  by (auto simp: on_failure_def counted_once_def uncounted_def Let_def
      split: if_splits prod.splits sum.splits)

lemma runner_iteration_counts:
  assumes "runner_iteration env urls st w = (r, st', w')"
  shows "(r = None \<longrightarrow> counted_once st st') \<and> (counted_once st st' \<or> uncounted st st')"
proof -
  let ?st1 = "st\<lparr>inst_status := ''running'', current_step := ''pick url''\<rparr>"
  obtain r1 w1 where p: "pick_url env urls w = (r1, w1)" by (cases "pick_url env urls w")
  show ?thesis
  proof (cases r1)
    case (Inl e)
    with p assms have "st' = ?st1"
      by (simp add: runner_iteration_def)
    with Inl p assms show ?thesis
      by (auto simp: runner_iteration_def uncounted_def)
  next
    case (Inr url)
    let ?st2 = "?st1\<lparr>last_url := url, started_at := clock w1\<rparr>"
    obtain r2 st3 w2 where run: "run_once env url ?st2 w1 = (r2, st3, w2)"
      by (cases "run_once env url ?st2 w1")
    from run have "frozen ?st2 st3" by (rule run_once_frozen)
    then have same: "runs st3 = runs st" "successes st3 = successes st"
      "failures st3 = failures st"
      by (auto dest: frozen_counters)
    show ?thesis
    proof (cases r2)
      case (Inl e)
      with p Inr run assms have "on_failure env e st3 w2 = (r, st', w')"
        by (simp add: runner_iteration_def)
      from on_failure_counts [OF this] same show ?thesis
        by (auto simp: counted_once_def uncounted_def)
    next
      case res: (Inr res)
      let ?st4 = "st3\<lparr>runs := runs st3 + 1, successes := successes st3 + 1,
        last_detail := (if res \<noteq> [] then detail (last res) else []),
        inst_status := ''idle'', current_step := ''sleep 1s''\<rparr>"
      let ?w3 = "w2\<lparr>total_done := total_done w2 + 1\<rparr>"
      obtain r4 w4 where sl: "sleep env 1000 ?w3 = (r4, w4)" by (cases "sleep env 1000 ?w3")
      have c4: "counted_once st ?st4" using same by (simp add: counted_once_def)
      show ?thesis
      proof (cases r4)
        case (Inl e)
        with sl have "e = CancelledError" by (auto dest: sleep_raises_cancelled)
        with p Inr run res sl Inl assms have "r = Some CancelledError" "st' = ?st4"
          by (simp_all add: runner_iteration_def on_failure_def)
        with c4 show ?thesis by simp
      next
        case (Inr u)
        with p \<open>r1 = Inr url\<close> run res sl assms have "st' = ?st4"
          by (simp add: runner_iteration_def)
        with c4 show ?thesis by simp
      qed
    qed
  qed
qed

lemma runner_task_invariant:
  "runs st = successes st + failures st \<Longrightarrow> runner_task n env urls st w = (r, st', w') \<Longrightarrow>
   runs st' = successes st' + failures st'"
proof (induction n arbitrary: st w)
  case 0
  then show ?case by simp
next
  case (Suc n)
  obtain r1 st1 w1 where it: "runner_iteration env urls st w = (r1, st1, w1)"
    by (cases "runner_iteration env urls st w")
  from runner_iteration_counts [OF it] Suc.prems(1)
  have inv1: "runs st1 = successes st1 + failures st1"
    by (auto simp: counted_once_def uncounted_def)
  show ?case
  proof (cases r1)
    case None
    with it Suc.prems(2) have "runner_task n env urls st1 w1 = (r, st', w')" by simp
    with inv1 show ?thesis by (rule Suc.IH)
  next
    case (Some e)
    with it Suc.prems(2) have "st' = st1" by simp
    with inv1 show ?thesis by simp
  qed
qed

section \<open>The session of a run\<close>


























text \<open>The definitions that running the workflow on a given page unfolds.\<close>

lemmas engine_defs = call_def sleep_def random_sleep_def perform_def bind_exn_def attempt_def
  try_strategy_def or_else_def el_click_def el_dblclick_def mouse_sequence_def mouse_click_def
  page_click_def js_click_def click_strategies_def try_selector_def hard_click_def
  hard_click_loop.simps wait_for_load_def wait_for_any_visible_def
  wait_for_any_visible_loop.simps MAX_WAIT_def POLL_MS_def MAX_FIND_MS_def

lemmas flow_defs = run_once_def run_session_def enter_def try_block_def steps_1_to_4_def
  finally_block_def on_world_def set_step_def append_result_def set_browser_def
  set_context_def launch_browser_def session_setup_def step_open_url_def step2_def step3_def
  step4_def fast_path_def step5_verify_def step6_def step7_def step8_def verify_path_def
  after_race_def step5_onwards_def close_context_def close_browser_def append_done_def
  race_def choose_branch_def elif_branch_def else_branch_def get_link_selectors_def
  step5_selectors_def





section \<open>What a run appends and which clicks it attempts\<close>

lemma call_clicks:
  "call env a w = (r, w') \<Longrightarrow> click_mark (a, r) = None \<Longrightarrow>
   clicks_attempted w' = clicks_attempted w"
  by (auto simp: call_def clicks_attempted_def map_filter_def split: prod.splits)

lemma perform_clicks:
  assumes "on_world (perform env a) s = (r, s')" and "\<And>d. a \<noteq> HardClick d"
  shows "clicks_attempted (world_of s') = clicks_attempted (world_of s) \<and> results s' = results s"
proof -
  have "click_mark (a, x) = None" for x
    using assms(2) by (cases a) auto
  with assms(1) show ?thesis
    by (auto simp: on_world_def perform_def split: prod.splits sum.splits dest!: call_clicks)
qed

lemma attempt_clicks:
  assumes "on_world (attempt env a) s = (r, s')" and "\<And>d. a \<noteq> HardClick d"
  shows "clicks_attempted (world_of s') = clicks_attempted (world_of s) \<and> results s' = results s"
proof -
  have "click_mark (a, x) = None" for x
    using assms(2) by (cases a) auto
  with assms(1) show ?thesis
    by (auto simp: on_world_def attempt_def split: prod.splits sum.splits if_splits
        dest!: call_clicks)
qed

lemma grows_on_world:
  assumes "on_world m s = (r, s')" and "\<And>w r w'. m w = (r, w') \<Longrightarrow> grows w w'"
  shows "clicks_attempted (world_of s') = clicks_attempted (world_of s) \<and> results s' = results s"
proof -
  obtain r1 w1 where m: "m (world_of s) = (r1, w1)" by (cases "m (world_of s)")
  then have "clicks_attempted w1 = clicks_attempted (world_of s)"
    by (intro grows_clicks assms(2))
  with assms(1) m show ?thesis by (auto simp: on_world_def)
qed

lemma hard_click_on_world:
  assumes "on_world (hard_click env sel d many dbl) s = (r, s')"
  shows "clicks_attempted (world_of s') = clicks_attempted (world_of s) @ [d] \<and>
         results s' = results s"
  using assms
  by (auto simp: on_world_def split: prod.splits dest!: hard_click_clicks(1))

text \<open>
  The steps 2, 3, 4, 5, 6 and 7 have one shape: label, click, settle, entry. Such a
  step always attempts its click, and appends its entry exactly when it does not raise.
\<close>

lemma click_step_gain:
  assumes "seq [set_step l, on_world (hard_click env sel d many dbl),
      on_world (wait_for_load env t), append_result n ''OK'' dt] s = (r, s')"
  shows "clicks_attempted (world_of s') = clicks_attempted (world_of s) @ [d] \<and>
         results s' = results s @
           (case r of Inl e \<Rightarrow> [] | Inr u \<Rightarrow> [\<lparr>step = n, status = ''OK'', detail = dt\<rparr>])"
proof -
  let ?s1 = "s\<lparr>state := (state s)\<lparr>current_step := l\<rparr>\<rparr>"
  obtain r2 s2 where h: "on_world (hard_click env sel d many dbl) ?s1 = (r2, s2)"
    by (cases "on_world (hard_click env sel d many dbl) ?s1")
  from hard_click_on_world [OF h]
  have g2: "clicks_attempted (world_of s2) = clicks_attempted (world_of s) @ [d]"
    "results s2 = results s" by simp_all
  show ?thesis
  proof (cases r2)
    case (Inl e)
    with h assms have "r = Inl e" "s' = s2" by (simp_all add: set_step_def)
    with g2 show ?thesis by simp
  next
    case (Inr u)
    obtain r3 s3 where l: "on_world (wait_for_load env t) s2 = (r3, s3)"
      by (cases "on_world (wait_for_load env t) s2")
    from grows_on_world [OF l wait_for_load_grows] g2
    have g3: "clicks_attempted (world_of s3) = clicks_attempted (world_of s) @ [d]"
      "results s3 = results s" by simp_all
    show ?thesis
    proof (cases r3)
      case (Inl e)
      with h Inr l assms have "r = Inl e" "s' = s3" by (simp_all add: set_step_def)
      with g3 show ?thesis by simp
    next
      case ok: (Inr u3)
      with h Inr l assms have "r = Inr ()"
        "s' = s3\<lparr>results := results s3 @ [\<lparr>step = n, status = ''OK'', detail = dt\<rparr>]\<rparr>"
        by (simp_all add: set_step_def append_result_def)
      with g3 show ?thesis by simp
    qed
  qed
qed

text \<open>
  Step 8 and the fast path have one shape too: label, settle, five seconds, click, one
  second, entry, label. A cancellation may end them before the click is attempted.
\<close>

lemma final_step_gain:
  assumes "seq [set_step l, on_world (wait_for_load env t), on_world (sleep env a),
      on_world (hard_click env sel d many dbl), on_world (sleep env b),
      append_result n ''OK'' dt, set_step l2] s = (r, s')"
  shows "case r of
           Inl e \<Rightarrow> results s' = results s \<and>
             (clicks_attempted (world_of s') = clicks_attempted (world_of s) \<or>
              clicks_attempted (world_of s') = clicks_attempted (world_of s) @ [d])
         | Inr u \<Rightarrow> results s' = results s @ [\<lparr>step = n, status = ''OK'', detail = dt\<rparr>] \<and>
             clicks_attempted (world_of s') = clicks_attempted (world_of s) @ [d]"
proof -
  let ?s1 = "s\<lparr>state := (state s)\<lparr>current_step := l\<rparr>\<rparr>"
  obtain r2 s2 where l: "on_world (wait_for_load env t) ?s1 = (r2, s2)"
    by (cases "on_world (wait_for_load env t) ?s1")
  from grows_on_world [OF l wait_for_load_grows]
  have g2: "clicks_attempted (world_of s2) = clicks_attempted (world_of s)"
    "results s2 = results s" by simp_all
  show ?thesis
  proof (cases r2)
    case (Inl e)
    with l assms have "r = Inl e" "s' = s2" by (simp_all add: set_step_def)
    with g2 show ?thesis by simp
  next
    case (Inr u)
    obtain r3 s3 where sl: "on_world (sleep env a) s2 = (r3, s3)"
      by (cases "on_world (sleep env a) s2")
    from grows_on_world [OF sl sleep_grows] g2
    have g3: "clicks_attempted (world_of s3) = clicks_attempted (world_of s)"
      "results s3 = results s" by simp_all
    show ?thesis
    proof (cases r3)
      case (Inl e)
      with l Inr sl assms have "r = Inl e" "s' = s3" by (simp_all add: set_step_def)
      with g3 show ?thesis by simp
    next
      case ok3: (Inr u3)
      obtain r4 s4 where h: "on_world (hard_click env sel d many dbl) s3 = (r4, s4)"
        by (cases "on_world (hard_click env sel d many dbl) s3")
      from hard_click_on_world [OF h] g3
      have g4: "clicks_attempted (world_of s4) = clicks_attempted (world_of s) @ [d]"
        "results s4 = results s" by simp_all
      show ?thesis
      proof (cases r4)
        case (Inl e)
        with l Inr sl ok3 h assms have "r = Inl e" "s' = s4" by (simp_all add: set_step_def)
        with g4 show ?thesis by simp
      next
        case ok4: (Inr u4)
        obtain r5 s5 where sl2: "on_world (sleep env b) s4 = (r5, s5)"
          by (cases "on_world (sleep env b) s4")
        from grows_on_world [OF sl2 sleep_grows] g4
        have g5: "clicks_attempted (world_of s5) = clicks_attempted (world_of s) @ [d]"
          "results s5 = results s" by simp_all
        show ?thesis
        proof (cases r5)
          case (Inl e)
          with l Inr sl ok3 h ok4 sl2 assms have "r = Inl e" "s' = s5"
            by (simp_all add: set_step_def)
          with g5 show ?thesis by simp
        next
          case ok5: (Inr u5)
          with l Inr sl ok3 h ok4 sl2 assms have "r = Inr ()"
            "results s' = results s5 @ [\<lparr>step = n, status = ''OK'', detail = dt\<rparr>]"
            "world_of s' = world_of s5"
            by (auto simp: set_step_def append_result_def)
          with g5 show ?thesis by simp
        qed
      qed
    qed
  qed
qed
text \<open>
  The route of a run: the entries it appends and the clicks it attempts, in the order
  the source has them. \<open>walks m route\<close> says that the steps \<open>m\<close> go along \<open>route\<close>: they
  stop at some point of it, having appended the entries and attempted the clicks before
  that point and nothing after it, and they stop at its end when they do not raise.
\<close>

datatype mark = Entry StepResult | Click string

fun entries_of :: "mark list \<Rightarrow> StepResult list" where
  "entries_of [] = []"
| "entries_of (Entry e # ms) = e # entries_of ms"
| "entries_of (Click d # ms) = entries_of ms"

fun clicks_of :: "mark list \<Rightarrow> string list" where
  "clicks_of [] = []"
| "clicks_of (Entry e # ms) = clicks_of ms"
| "clicks_of (Click d # ms) = d # clicks_of ms"

definition stopped_at :: "mark list \<Rightarrow> nat \<Rightarrow> run_state \<Rightarrow> run_state \<Rightarrow> bool" where
  "stopped_at route k s s' =
     (k \<le> length route \<and>
      results s' = results s @ entries_of (take k route) \<and>
      clicks_attempted (world_of s')
        = clicks_attempted (world_of s) @ clicks_of (take k route))"

definition walks :: "(run_state \<Rightarrow> (exn + unit) \<times> run_state) \<Rightarrow> mark list \<Rightarrow> bool" where
  "walks m route =
     (\<forall>s r s'. m s = (r, s') \<longrightarrow>
        (\<exists>k. stopped_at route k s s' \<and> (r = Inr () \<longrightarrow> k = length route)))"

lemma entries_of_append: "entries_of (xs @ ys) = entries_of xs @ entries_of ys"
  by (induction xs rule: entries_of.induct) simp_all

lemma clicks_of_append: "clicks_of (xs @ ys) = clicks_of xs @ clicks_of ys"
  by (induction xs rule: clicks_of.induct) simp_all

lemma walksD:
  "walks m route \<Longrightarrow> m s = (r, s') \<Longrightarrow>
   \<exists>k. stopped_at route k s s' \<and> (r = Inr () \<longrightarrow> k = length route)"
  by (simp add: walks_def)

lemma stopped_at_trans:
  assumes "stopped_at p (length p) s s1" and "stopped_at q k s1 s2"
  shows "stopped_at (p @ q) (length p + k) s s2"
  using assms by (simp add: stopped_at_def entries_of_append clicks_of_append)

lemma stopped_at_left:
  assumes "stopped_at p k s s1"
  shows "stopped_at (p @ q) k s s1"
  using assms by (simp add: stopped_at_def)

lemma walks_then:
  assumes m: "walks m p" and rest: "walks (seq ms) q"
  shows "walks (seq (m # ms)) (p @ q)"
  unfolding walks_def
proof (intro allI impI)
  fix s r s'
  assume run: "seq (m # ms) s = (r, s')"
  obtain r1 s1 where m1: "m s = (r1, s1)" by (cases "m s")
  from walksD [OF m m1] obtain k1 where
    k1: "stopped_at p k1 s s1" "r1 = Inr () \<longrightarrow> k1 = length p" by auto
  show "\<exists>k. stopped_at (p @ q) k s s' \<and> (r = Inr () \<longrightarrow> k = length (p @ q))"
  proof (cases r1)
    case (Inl e)
    with run m1 have "r = Inl e" "s' = s1" by simp_all
    with k1(1) show ?thesis by (auto intro: stopped_at_left)
  next
    case (Inr u)
    with run m1 have "seq ms s1 = (r, s')" by simp
    from walksD [OF rest this] obtain k2 where
      k2: "stopped_at q k2 s1 s'" "r = Inr () \<longrightarrow> k2 = length q" by auto
    from Inr k1 have "stopped_at p (length p) s s1" by simp
    from stopped_at_trans [OF this k2(1)] k2(2) show ?thesis by auto
  qed
qed

lemma walks_done: "walks (seq []) []"
  by (simp add: walks_def stopped_at_def)

lemma walks_idle:
  assumes "\<And>s r s'. m s = (r, s') \<Longrightarrow>
    clicks_attempted (world_of s') = clicks_attempted (world_of s) \<and> results s' = results s"
  shows "walks m []"
  using assms by (auto simp: walks_def stopped_at_def)

lemma walks_click_step:
  "walks (seq [set_step l, on_world (hard_click env sel d many dbl),
      on_world (wait_for_load env t), append_result n ''OK'' dt])
     [Click d, Entry \<lparr>step = n, status = ''OK'', detail = dt\<rparr>]"
  unfolding walks_def
proof (intro allI impI)
  fix s r s'
  assume "seq [set_step l, on_world (hard_click env sel d many dbl),
      on_world (wait_for_load env t), append_result n ''OK'' dt] s = (r, s')"
  note g = click_step_gain [OF this]
  show "\<exists>k. stopped_at [Click d, Entry \<lparr>step = n, status = ''OK'', detail = dt\<rparr>] k s s' \<and>
      (r = Inr () \<longrightarrow> k = length [Click d, Entry \<lparr>step = n, status = ''OK'', detail = dt\<rparr>])"
  proof (cases r)
    case (Inl e)
    with g have "stopped_at [Click d, Entry \<lparr>step = n, status = ''OK'', detail = dt\<rparr>] 1 s s'"
      by (simp add: stopped_at_def)
    with Inl show ?thesis by blast
  next
    case (Inr u)
    with g have "stopped_at [Click d, Entry \<lparr>step = n, status = ''OK'', detail = dt\<rparr>] 2 s s'"
      by (simp add: stopped_at_def)
    then show ?thesis by auto
  qed
qed

lemma walks_final_step:
  "walks (seq [set_step l, on_world (wait_for_load env t), on_world (sleep env a),
      on_world (hard_click env sel d many dbl), on_world (sleep env b),
      append_result n ''OK'' dt, set_step l2])
     [Click d, Entry \<lparr>step = n, status = ''OK'', detail = dt\<rparr>]"
  unfolding walks_def
proof (intro allI impI)
  fix s r s'
  assume "seq [set_step l, on_world (wait_for_load env t), on_world (sleep env a),
      on_world (hard_click env sel d many dbl), on_world (sleep env b),
      append_result n ''OK'' dt, set_step l2] s = (r, s')"
  note g = final_step_gain [OF this]
  let ?route = "[Click d, Entry \<lparr>step = n, status = ''OK'', detail = dt\<rparr>]"
  show "\<exists>k. stopped_at ?route k s s' \<and> (r = Inr () \<longrightarrow> k = length ?route)"
  proof (cases r)
    case (Inl e)
    with g have "stopped_at ?route 0 s s' \<or> stopped_at ?route 1 s s'"
      by (auto simp: stopped_at_def)
    with Inl show ?thesis by blast
  next
    case (Inr u)
    with g have "stopped_at ?route 2 s s'"
      by (simp add: stopped_at_def)
    then show ?thesis by auto
  qed
qed

lemma walks_open_url:
  "walks (step_open_url env url) [Entry \<lparr>step = ''Open URL'', status = ''OK'', detail = url\<rparr>]"
  unfolding walks_def
proof (intro allI impI)
  fix s r s'
  assume run: "step_open_url env url s = (r, s')"
  let ?route = "[Entry \<lparr>step = ''Open URL'', status = ''OK'', detail = url\<rparr>]"
  let ?s1 = "s\<lparr>state := (state s)\<lparr>current_step := ''open url''\<rparr>\<rparr>"
  obtain r2 s2 where g: "on_world (perform env (Goto url MAX_WAIT)) ?s1 = (r2, s2)"
    by (cases "on_world (perform env (Goto url MAX_WAIT)) ?s1")
  from perform_clicks [OF g]
  have g2: "clicks_attempted (world_of s2) = clicks_attempted (world_of s)"
    "results s2 = results s" by simp_all
  show "\<exists>k. stopped_at ?route k s s' \<and> (r = Inr () \<longrightarrow> k = length ?route)"
  proof (cases r2)
    case (Inl e)
    with g run have "r = Inl e" "s' = s2" by (simp_all add: step_open_url_def set_step_def)
    with g2 have "stopped_at ?route 0 s s'" by (simp add: stopped_at_def)
    with \<open>r = Inl e\<close> show ?thesis by blast
  next
    case (Inr u)
    obtain r3 s3 where l: "on_world (wait_for_load env MAX_WAIT) s2 = (r3, s3)"
      by (cases "on_world (wait_for_load env MAX_WAIT) s2")
    from grows_on_world [OF l wait_for_load_grows] g2
    have g3: "clicks_attempted (world_of s3) = clicks_attempted (world_of s)"
      "results s3 = results s" by simp_all
    show ?thesis
    proof (cases r3)
      case (Inl e)
      with g Inr l run have "r = Inl e" "s' = s3"
        by (simp_all add: step_open_url_def set_step_def)
      with g3 have "stopped_at ?route 0 s s'" by (simp add: stopped_at_def)
      with \<open>r = Inl e\<close> show ?thesis by blast
    next
      case ok: (Inr u3)
      with g Inr l run have
        "s' = s3\<lparr>results := results s3
           @ [\<lparr>step = ''Open URL'', status = ''OK'', detail = url\<rparr>]\<rparr>"
        by (simp add: step_open_url_def set_step_def append_result_def)
      with g3 have "stopped_at ?route 1 s s'" by (simp add: stopped_at_def)
      then show ?thesis by auto
    qed
  qed
qed

lemma idle_basic:
  "m = set_step l \<or> m = set_browser \<or> m = set_context \<Longrightarrow> m s = (r, s') \<Longrightarrow>
   clicks_attempted (world_of s') = clicks_attempted (world_of s) \<and> results s' = results s"
  by (auto simp: set_step_def set_browser_def set_context_def)

lemma idle_seq:
  assumes "list_all (\<lambda>m. \<forall>s r s'. m s = (r, s') \<longrightarrow>
      clicks_attempted (world_of s') = clicks_attempted (world_of s) \<and> results s' = results s) ms"
    and "seq ms s = (r, s')"
  shows "clicks_attempted (world_of s') = clicks_attempted (world_of s) \<and> results s' = results s"
  using assms
proof (induction ms arbitrary: s)
  case Nil
  then show ?case by simp
next
  case (Cons m ms)
  obtain r1 s1 where m1: "m s = (r1, s1)" by (cases "m s")
  with Cons.prems(1) have g1:
    "clicks_attempted (world_of s1) = clicks_attempted (world_of s) \<and> results s1 = results s"
    by simp
  from Cons.prems(2) m1 have "s' = s1 \<or> seq ms s1 = (r, s')"
    by (auto split: sum.splits)
  then show ?case
    using g1 Cons.IH [of s1] Cons.prems(1) by auto
qed

lemma walks_launch_browser: "walks (launch_browser env) []"
proof (rule walks_idle)
  fix s r s'
  assume run: "launch_browser env s = (r, s')"
  obtain r1 s1 where l: "on_world (perform env Launch) s = (r1, s1)"
    by (cases "on_world (perform env Launch) s")
  note g1 = perform_clicks [OF l]
  have tail: "seq [on_world (perform env InstallChromium), on_world (perform env Launch),
      set_browser] s1 = (r, s') \<Longrightarrow>
    clicks_attempted (world_of s') = clicks_attempted (world_of s1) \<and> results s' = results s1"
    by (erule idle_seq [rotated]) (auto dest: perform_clicks idle_basic [rotated])
  from run l have "s' = s1 \<or> s' = s1\<lparr>has_browser := True\<rparr> \<or>
      seq [on_world (perform env InstallChromium), on_world (perform env Launch),
        set_browser] s1 = (r, s')"
    by (auto simp: launch_browser_def set_browser_def split: sum.splits if_splits)
  then show "clicks_attempted (world_of s') = clicks_attempted (world_of s) \<and>
      results s' = results s"
    using g1 tail by auto
qed

lemma walks_session_setup: "walks (session_setup env) []"
  unfolding session_setup_def
  by (rule walks_idle, erule idle_seq [rotated])
    (auto dest: perform_clicks idle_basic [rotated])

lemma walks_steps:
  "walks (step2 env)
     [Click ''human verification (mtc2)'', Entry \<lparr>step = ''Step 2'', status = ''OK'', detail = []\<rparr>]"
  "walks (step3 env)
     [Click ''generate link (mtc2)'', Entry \<lparr>step = ''Step 3'', status = ''OK'', detail = []\<rparr>]"
  "walks (step4 env)
     [Click ''download link (mtc2)'', Entry \<lparr>step = ''Step 4'', status = ''OK'', detail = []\<rparr>]"
  "walks (step5_verify env)
     [Click ''human verification (mtc1)'', Entry \<lparr>step = ''Step 5'', status = ''OK'', detail = []\<rparr>]"
  "walks (step6 env)
     [Click ''generate link (mtc1)'', Entry \<lparr>step = ''Step 6'', status = ''OK'', detail = []\<rparr>]"
  "walks (step7 env)
     [Click ''download link (mtc1)'', Entry \<lparr>step = ''Step 7'', status = ''OK'', detail = []\<rparr>]"
  unfolding step2_def step3_def step4_def step5_verify_def step6_def step7_def
  by (rule walks_click_step)+

lemma walks_step8:
  "walks (step8 env)
     [Click ''Get Link final'',
      Entry \<lparr>step = ''Step 8'', status = ''OK'',
             detail = ''Waited 5s before click; 1s after click''\<rparr>]"
  unfolding step8_def by (rule walks_final_step)

lemma walks_fast_path:
  "walks (fast_path env)
     [Click ''Get Link final'',
      Entry \<lparr>step = ''Step 5-8 fast path'', status = ''OK'',
             detail = ''Get Link appeared first; waited 5s before click''\<rparr>]"
  unfolding fast_path_def by (rule walks_final_step)

text \<open>The three routes: up to the race, and after it on either branch.\<close>

definition route_1_to_4 :: "string \<Rightarrow> mark list" where
  "route_1_to_4 url =
     [Entry \<lparr>step = ''Open URL'', status = ''OK'', detail = url\<rparr>,
      Click ''human verification (mtc2)'',
      Entry \<lparr>step = ''Step 2'', status = ''OK'', detail = []\<rparr>,
      Click ''generate link (mtc2)'',
      Entry \<lparr>step = ''Step 3'', status = ''OK'', detail = []\<rparr>,
      Click ''download link (mtc2)'',
      Entry \<lparr>step = ''Step 4'', status = ''OK'', detail = []\<rparr>]"

definition route_fast :: "mark list" where
  "route_fast =
     [Click ''Get Link final'',
      Entry \<lparr>step = ''Step 5-8 fast path'', status = ''OK'',
             detail = ''Get Link appeared first; waited 5s before click''\<rparr>]"

definition route_verify :: "mark list" where
  "route_verify =
     [Click ''human verification (mtc1)'',
      Entry \<lparr>step = ''Step 5'', status = ''OK'', detail = []\<rparr>,
      Click ''generate link (mtc1)'',
      Entry \<lparr>step = ''Step 6'', status = ''OK'', detail = []\<rparr>,
      Click ''download link (mtc1)'',
      Entry \<lparr>step = ''Step 7'', status = ''OK'', detail = []\<rparr>,
      Click ''Get Link final'',
      Entry \<lparr>step = ''Step 8'', status = ''OK'',
             detail = ''Waited 5s before click; 1s after click''\<rparr>]"

lemma walks_steps_1_to_4: "walks (steps_1_to_4 env url) (route_1_to_4 url)"
proof -
  have "walks (steps_1_to_4 env url)
     ([] @ [] @ [Entry \<lparr>step = ''Open URL'', status = ''OK'', detail = url\<rparr>]
      @ [Click ''human verification (mtc2)'', Entry \<lparr>step = ''Step 2'', status = ''OK'', detail = []\<rparr>]
      @ [Click ''generate link (mtc2)'', Entry \<lparr>step = ''Step 3'', status = ''OK'', detail = []\<rparr>]
      @ [Click ''download link (mtc2)'', Entry \<lparr>step = ''Step 4'', status = ''OK'', detail = []\<rparr>]
      @ [])"
    unfolding steps_1_to_4_def
    by (intro walks_then walks_done walks_launch_browser walks_session_setup walks_open_url
        walks_steps)
  then show ?thesis by (simp add: route_1_to_4_def)
qed

lemma walks_verify_path: "walks (verify_path env) route_verify"
proof -
  have "walks (verify_path env)
     ([Click ''human verification (mtc1)'', Entry \<lparr>step = ''Step 5'', status = ''OK'', detail = []\<rparr>]
      @ [Click ''generate link (mtc1)'', Entry \<lparr>step = ''Step 6'', status = ''OK'', detail = []\<rparr>]
      @ [Click ''download link (mtc1)'', Entry \<lparr>step = ''Step 7'', status = ''OK'', detail = []\<rparr>]
      @ [Click ''Get Link final'',
         Entry \<lparr>step = ''Step 8'', status = ''OK'',
                detail = ''Waited 5s before click; 1s after click''\<rparr>]
      @ [])"
    unfolding verify_path_def
    by (intro walks_then walks_done walks_steps walks_step8)
  then show ?thesis by (simp add: route_verify_def)
qed
text \<open>
  The race of a run, when the run gets as far: \<open>race_of_run\<close> follows \<open>run_session\<close>
  up to the call of \<open>asyncio.wait\<close> and hands back what the race reported.
  \<open>iteration_run\<close> is the call of \<open>run_once\<close> that one pass of the worker's loop makes:
  its URL, the instance state and the world it starts from.
\<close>

definition race_of_run :: "env \<Rightarrow> string \<Rightarrow> InstanceState \<Rightarrow> world \<Rightarrow> race_result option" where
  "race_of_run env url st w =
     (case enter env st w of
        (Inl e, s1) \<Rightarrow> None
      | (Inr u, s1) \<Rightarrow>
          (case steps_1_to_4 env url s1 of
             (Inl e, s2) \<Rightarrow> None
           | (Inr u2, s2) \<Rightarrow>
               (case race env (world_of s2) of
                  (Inl e, w') \<Rightarrow> None
                | (Inr rr, w') \<Rightarrow> Some rr)))"

definition iteration_run ::
  "env \<Rightarrow> string list \<Rightarrow> InstanceState \<Rightarrow> world \<Rightarrow> (string \<times> InstanceState \<times> world) option" where
  "iteration_run env urls st w =
     (case pick_url env urls w of
        (Inl e, w1) \<Rightarrow> None
      | (Inr url, w1) \<Rightarrow>
          Some (url,
                st\<lparr>inst_status := ''running'', current_step := ''pick url'',
                   last_url := url, started_at := clock w1\<rparr>,
                w1))"

lemma step5_onwards_route:
  assumes "step5_onwards env s = (r, s')"
  shows "\<exists>route k. (route = route_fast \<or> route = route_verify) \<and> stopped_at route k s s' \<and>
           (r = Inr () \<longrightarrow> k = length route) \<and>
           (\<forall>rr w5. race env (world_of s) = (Inr rr, w5) \<longrightarrow>
              (choose_branch rr = Inr FastPath \<longrightarrow> route = route_fast) \<and>
              (choose_branch rr = Inr VerifyPath \<longrightarrow> route = route_verify))"
proof -
  let ?s1 = "s\<lparr>state := (state s)\<lparr>current_step := ''step 5 watch: mtc1 verify vs get-link''\<rparr>\<rparr>"
  obtain r2 w2 where rc: "race env (world_of s) = (r2, w2)" by (cases "race env (world_of s)")
  let ?s2 = "?s1\<lparr>world_of := w2\<rparr>"
  from rc have g: "grows (world_of s) w2" by (rule race_grows)
  have same: "stopped_at route 0 s ?s2" for route
    using grows_clicks [OF g] by (simp add: stopped_at_def)
  show ?thesis
  proof (cases r2)
    case (Inl e)
    with rc assms have "r = Inl e" "s' = ?s2"
      by (simp_all add: step5_onwards_def bind_exn_def set_step_def on_world_def)
    with same [of route_fast] rc Inl show ?thesis by auto
  next
    case (Inr rr)
    with rc assms have ar: "after_race env rr ?s2 = (r, s')"
      by (simp add: step5_onwards_def bind_exn_def set_step_def on_world_def)
    show ?thesis
    proof (cases "choose_branch rr")
      case (Inl e)
      with ar have "r = Inl e" "s' = ?s2" by (simp_all add: after_race_def)
      with same [of route_fast] rc Inr Inl show ?thesis by auto
    next
      case (Inr p)
      show ?thesis
      proof (cases p)
        case FastPath
        with ar Inr have "fast_path env ?s2 = (r, s')" by (simp add: after_race_def)
        from walksD [OF walks_fast_path [unfolded route_fast_def [symmetric]] this]
        obtain k where "stopped_at route_fast k ?s2 s'" "r = Inr () \<longrightarrow> k = length route_fast"
          by auto
        with grows_clicks [OF g] have "stopped_at route_fast k s s'"
          "r = Inr () \<longrightarrow> k = length route_fast"
          by (simp_all add: stopped_at_def)
        with rc \<open>r2 = Inr rr\<close> Inr FastPath show ?thesis by auto
      next
        case VerifyPath
        with ar Inr have "verify_path env ?s2 = (r, s')" by (simp add: after_race_def)
        from walksD [OF walks_verify_path this]
        obtain k where "stopped_at route_verify k ?s2 s'"
          "r = Inr () \<longrightarrow> k = length route_verify"
          by auto
        with grows_clicks [OF g] have "stopped_at route_verify k s s'"
          "r = Inr () \<longrightarrow> k = length route_verify"
          by (simp_all add: stopped_at_def)
        with rc \<open>r2 = Inr rr\<close> Inr VerifyPath show ?thesis by auto
      qed
    qed
  qed
qed

text \<open>
  The whole of the \<open>try\<close>: it goes along the route up to the race followed by one of the
  two branches, and the branch is the one the race selects.
\<close>

lemma try_block_route:
  assumes "try_block env url s = (r, s')"
  shows "\<exists>tail k. (tail = route_fast \<or> tail = route_verify) \<and>
           stopped_at (route_1_to_4 url @ tail) k s s' \<and>
           (r = Inr () \<longrightarrow> k = length (route_1_to_4 url @ tail)) \<and>
           (\<forall>s2 rr w5. steps_1_to_4 env url s = (Inr (), s2) \<longrightarrow>
              race env (world_of s2) = (Inr rr, w5) \<longrightarrow>
              length (route_1_to_4 url) \<le> k \<and>
              (choose_branch rr = Inr FastPath \<longrightarrow> tail = route_fast) \<and>
              (choose_branch rr = Inr VerifyPath \<longrightarrow> tail = route_verify))"
proof -
  obtain r1 s1 where a: "steps_1_to_4 env url s = (r1, s1)"
    by (cases "steps_1_to_4 env url s")
  from walksD [OF walks_steps_1_to_4 a] obtain k1 where
    k1: "stopped_at (route_1_to_4 url) k1 s s1" "r1 = Inr () \<longrightarrow> k1 = length (route_1_to_4 url)"
    by auto
  show ?thesis
  proof (cases r1)
    case (Inl e)
    with a assms have "r = Inl e" "s' = s1" by (simp_all add: try_block_def)
    with k1(1) a Inl show ?thesis
      by (auto intro: stopped_at_left)
  next
    case (Inr u)
    with a assms have b: "step5_onwards env s1 = (r, s')"
      by (auto simp: try_block_def split: sum.splits prod.splits)
    from step5_onwards_route [OF b] obtain tail k where
      t: "tail = route_fast \<or> tail = route_verify" "stopped_at tail k s1 s'"
        "r = Inr () \<longrightarrow> k = length tail"
        "\<forall>rr w5. race env (world_of s1) = (Inr rr, w5) \<longrightarrow>
              (choose_branch rr = Inr FastPath \<longrightarrow> tail = route_fast) \<and>
              (choose_branch rr = Inr VerifyPath \<longrightarrow> tail = route_verify)"
      by blast
    from Inr k1 have "stopped_at (route_1_to_4 url) (length (route_1_to_4 url)) s s1" by simp
    from stopped_at_trans [OF this t(2)]
    have "stopped_at (route_1_to_4 url @ tail) (length (route_1_to_4 url) + k) s s'" .
    moreover from t(3) have
      "r = Inr () \<longrightarrow> length (route_1_to_4 url) + k = length (route_1_to_4 url @ tail)"
      by simp
    ultimately show ?thesis using t(1,4) a Inr by (intro exI [of _ tail]) auto
  qed
qed

text \<open>
  The \<open>finally\<close> attempts no click. When it runs to its end it appends the \<open>Done\<close>
  entry and leaves the outcome of the \<open>try\<close> as it was; when a close lets a
  cancellation through it appends nothing and the run ends with that.
\<close>

definition done_entry :: "string \<Rightarrow> StepResult" where
  "done_entry d = \<lparr>step = ''Done'', status = ''OK'', detail = d\<rparr>"

lemma finally_block_gain:
  assumes "finally_block env t r s = (r', s')"
  shows "clicks_attempted (world_of s') = clicks_attempted (world_of s) \<and>
         ((\<exists>d. results s' = results s @ [done_entry d]) \<and> r' = r \<or>
          results s' = results s \<and> (\<exists>e. r' = Inl e))"
proof -
  have cc: "close_context env s = (x, y) \<Longrightarrow>
      clicks_attempted (world_of y) = clicks_attempted (world_of s) \<and> results y = results s"
    for s x y
    by (auto simp: close_context_def split: if_splits dest: attempt_clicks)
  have cb: "close_browser env s = (x, y) \<Longrightarrow>
      clicks_attempted (world_of y) = clicks_attempted (world_of s) \<and> results y = results s"
    for s x y
    by (auto simp: close_browser_def split: if_splits dest: attempt_clicks)
  obtain r1 s1 where c: "close_context env s = (r1, s1)" by (cases "close_context env s")
  note g1 = cc [OF c]
  show ?thesis
  proof (cases r1)
    case (Inl e)
    with c assms have "r' = Inl e" "s' = s1" by (simp_all add: finally_block_def)
    with g1 show ?thesis by simp
  next
    case (Inr u)
    obtain r2 s2 where b: "close_browser env s1 = (r2, s2)" by (cases "close_browser env s1")
    note g2 = cb [OF b]
    show ?thesis
    proof (cases r2)
      case (Inl e)
      with c Inr b assms have "r' = Inl e" "s' = s2" by (simp_all add: finally_block_def)
      with g1 g2 show ?thesis by simp
    next
      case ok: (Inr u2)
      with c Inr b assms have "r' = r"
        "s' = s2\<lparr>results := results s2
           @ [done_entry (elapsed_detail (clock (world_of s2) - t))]\<rparr>"
        by (simp_all add: finally_block_def append_done_def append_result_def done_entry_def)
      with g1 g2 show ?thesis by auto
    qed
  qed
qed

lemma run_session_route:
  assumes "run_session env url st w = (r, s')"
  shows "\<exists>tail k fin. (tail = route_fast \<or> tail = route_verify) \<and>
           k \<le> length (route_1_to_4 url @ tail) \<and>
           results s' = entries_of (take k (route_1_to_4 url @ tail)) @ fin \<and>
           clicks_attempted (world_of s')
             = clicks_attempted w @ clicks_of (take k (route_1_to_4 url @ tail)) \<and>
           (fin = [] \<or> (\<exists>d. fin = [done_entry d])) \<and>
           (r = Inr () \<longrightarrow> k = length (route_1_to_4 url @ tail) \<and> fin \<noteq> []) \<and>
           (\<forall>rr. race_of_run env url st w = Some rr \<longrightarrow>
              length (route_1_to_4 url) \<le> k \<and>
              (choose_branch rr = Inr FastPath \<longrightarrow> tail = route_fast) \<and>
              (choose_branch rr = Inr VerifyPath \<longrightarrow> tail = route_verify))"
proof -
  let ?s0 = "\<lparr>world_of = w, state = st, results = [],
    has_browser = False, has_context = False\<rparr>"
  obtain r1 s1 where e: "enter env st w = (r1, s1)" by (cases "enter env st w")
  obtain r0 s0' where p0: "on_world (perform env PlaywrightStart) ?s0 = (r0, s0')"
    by (cases "on_world (perform env PlaywrightStart) ?s0")
  from perform_clicks [OF p0] e p0
  have s1: "clicks_attempted (world_of s1) = clicks_attempted w" "results s1 = []"
    by (auto simp: enter_def bind_exn_def set_step_def split: sum.splits)
  show ?thesis
  proof (cases r1)
    case (Inl e1)
    with e assms have "s' = s1" "r = Inl e1" by (simp_all add: run_session_def)
    moreover from e Inl have "race_of_run env url st w = None"
      by (simp add: race_of_run_def)
    ultimately show ?thesis using s1
      by (intro exI [of _ route_fast] exI [of _ 0] exI [of _ "[]"]) simp
  next
    case (Inr u)
    obtain r2 s2 where t: "try_block env url s1 = (r2, s2)" by (cases "try_block env url s1")
    obtain r3 s3 where f: "finally_block env (clock w) r2 s2 = (r3, s3)"
      by (cases "finally_block env (clock w) r2 s2")
    obtain r4 s4 where p: "on_world (perform env PlaywrightStop) s3 = (r4, s4)"
      by (cases "on_world (perform env PlaywrightStop) s3")
    from try_block_route [OF t] obtain tail k where
      tk: "tail = route_fast \<or> tail = route_verify"
        "stopped_at (route_1_to_4 url @ tail) k s1 s2"
        "r2 = Inr () \<longrightarrow> k = length (route_1_to_4 url @ tail)"
        "\<forall>s2 rr w5. steps_1_to_4 env url s1 = (Inr (), s2) \<longrightarrow>
              race env (world_of s2) = (Inr rr, w5) \<longrightarrow>
              length (route_1_to_4 url) \<le> k \<and>
              (choose_branch rr = Inr FastPath \<longrightarrow> tail = route_fast) \<and>
              (choose_branch rr = Inr VerifyPath \<longrightarrow> tail = route_verify)"
      by blast
    note fg = finally_block_gain [OF f]
    note pg = perform_clicks [OF p]
    from assms e Inr t f p have fin: "s' = s4" "r = (case r4 of Inl e \<Rightarrow> Inl e | Inr u \<Rightarrow> r3)"
      by (auto simp: run_session_def split: sum.splits)
    from fg obtain fin where
      f3: "results s3 = results s2 @ fin" "fin = [] \<or> (\<exists>d. fin = [done_entry d])"
        "r3 = Inr () \<longrightarrow> r2 = Inr () \<and> fin \<noteq> []"
      by auto
    have race: "\<forall>rr. race_of_run env url st w = Some rr \<longrightarrow>
              length (route_1_to_4 url) \<le> k \<and>
              (choose_branch rr = Inr FastPath \<longrightarrow> tail = route_fast) \<and>
              (choose_branch rr = Inr VerifyPath \<longrightarrow> tail = route_verify)"
      using tk(4) e Inr
      by (auto simp: race_of_run_def split: sum.splits prod.splits)
    from tk(2) s1 f3(1) fg pg fin(1)
    have "k \<le> length (route_1_to_4 url @ tail)"
      "results s' = entries_of (take k (route_1_to_4 url @ tail)) @ fin"
      "clicks_attempted (world_of s')
         = clicks_attempted w @ clicks_of (take k (route_1_to_4 url @ tail))"
      by (simp_all add: stopped_at_def)
    moreover from fin(2) f3(3) tk(3)
    have "r = Inr () \<longrightarrow> k = length (route_1_to_4 url @ tail) \<and> fin \<noteq> []"
      by (auto split: sum.splits)
    ultimately show ?thesis using tk(1) f3(2) race by blast
  qed
qed

lemma run_once_session:
  assumes "run_once env url st w = (r, st', w')"
  obtains r0 s' where "run_session env url st w = (r0, s')" and "w' = world_of s'"
    and "st' = state s'" and "r = (case r0 of Inl e \<Rightarrow> Inl e | Inr u \<Rightarrow> Inr (results s'))"
proof -
  obtain r0 s' where rs: "run_session env url st w = (r0, s')"
    by (cases "run_session env url st w")
  with assms have "w' = world_of s'" "st' = state s'"
    "r = (case r0 of Inl e \<Rightarrow> Inl e | Inr u \<Rightarrow> Inr (results s'))"
    by (auto simp: run_once_def split: sum.splits)
  with rs show ?thesis by (rule that)
qed

text \<open>
  C1, as the code has it. When the get-link group wins the race of a run, the run
  attempts the clicks of steps 2, 3 and 4 and then at most the final get-link click:
  the verification, generate and download clicks of the second site (steps 5, 6 and 7)
  are never attempted. When the run completes, its result holds six entries: \<open>Open URL\<close>,
  \<open>Step 2\<close>, \<open>Step 3\<close>, \<open>Step 4\<close>, the combined fast-path entry and the \<open>Done\<close> entry
  of the cleanup.
\<close>

theorem fast_path_run:
  assumes "race_of_run env url st w = Some rr"
    and "winner rr = GetTask"
    and "task_result (get_task rr) = Inr (Some sel)" and "sel \<noteq> []"
    and "run_once env url st w = (r, st', w')"
  shows "(clicks_attempted w' = clicks_attempted w @
            [''human verification (mtc2)'', ''generate link (mtc2)'', ''download link (mtc2)''] \<or>
          clicks_attempted w' = clicks_attempted w @
            [''human verification (mtc2)'', ''generate link (mtc2)'', ''download link (mtc2)'',
             ''Get Link final'']) \<and>
         (case r of
            Inl e \<Rightarrow> True
          | Inr rs \<Rightarrow>
              map step rs = [''Open URL'', ''Step 2'', ''Step 3'', ''Step 4'',
                             ''Step 5-8 fast path'', ''Done''] \<and>
              clicks_attempted w' = clicks_attempted w @
                [''human verification (mtc2)'', ''generate link (mtc2)'',
                 ''download link (mtc2)'', ''Get Link final''])"
proof -
  from assms(5) obtain r0 s' where rs: "run_session env url st w = (r0, s')"
    and w': "w' = world_of s'"
    and r: "r = (case r0 of Inl e \<Rightarrow> Inl e | Inr u \<Rightarrow> Inr (results s'))"
    by (rule run_once_session)
  from assms(2-4) have fast: "choose_branch rr = Inr FastPath"
    by (simp add: choose_branch_def)
  from run_session_route [OF rs] assms(1) fast obtain k fin where
    k: "k \<le> length (route_1_to_4 url @ route_fast)" "length (route_1_to_4 url) \<le> k"
    and res: "results s' = entries_of (take k (route_1_to_4 url @ route_fast)) @ fin"
    and cl: "clicks_attempted (world_of s')
             = clicks_attempted w @ clicks_of (take k (route_1_to_4 url @ route_fast))"
    and fin: "fin = [] \<or> (\<exists>d. fin = [done_entry d])"
      "r0 = Inr () \<longrightarrow> k = length (route_1_to_4 url @ route_fast) \<and> fin \<noteq> []"
    by (metis sum.inject(2) path.distinct(1))
  from k have "k = 7 \<or> k = 8 \<or> k = 9"
    by (auto simp: route_1_to_4_def route_fast_def)
  then have clicks: "clicks_of (take k (route_1_to_4 url @ route_fast))
      = [''human verification (mtc2)'', ''generate link (mtc2)'', ''download link (mtc2)''] \<or>
    clicks_of (take k (route_1_to_4 url @ route_fast))
      = [''human verification (mtc2)'', ''generate link (mtc2)'', ''download link (mtc2)'',
         ''Get Link final'']"
    by (auto simp: route_1_to_4_def route_fast_def)
  have "case r of Inl e \<Rightarrow> True
    | Inr rs \<Rightarrow>
        map step rs = [''Open URL'', ''Step 2'', ''Step 3'', ''Step 4'',
                       ''Step 5-8 fast path'', ''Done''] \<and>
        clicks_attempted w' = clicks_attempted w @
          [''human verification (mtc2)'', ''generate link (mtc2)'',
           ''download link (mtc2)'', ''Get Link final'']"
  proof (cases r0)
    case (Inl e)
    with r show ?thesis by simp
  next
    case (Inr u)
    with fin have "k = 9" "\<exists>d. fin = [done_entry d]"
      by (auto simp: route_1_to_4_def route_fast_def)
    with res cl r Inr w' show ?thesis
      by (auto simp: route_1_to_4_def route_fast_def done_entry_def)
  qed
  with clicks cl w' show ?thesis by auto
qed

text \<open>
  C1 as stated fails on the page \<open>page_both True\<close>: the get-link group wins the race,
  every click succeeds, and the run returns six entries, not two.
\<close>

theorem fast_path_run_counterexample:
  "map_option winner (race_of_run (page_both True) ''http://x'' (new_InstanceState 1 0) w0)
     = Some GetTask \<and>
   (\<exists>rs. fst (run_once (page_both True) ''http://x'' (new_InstanceState 1 0) w0) = Inr rs \<and>
      length rs \<noteq> 2 \<and>
      map step rs = [''Open URL'', ''Step 2'', ''Step 3'', ''Step 4'',
                     ''Step 5-8 fast path'', ''Done''])"
  by (simp add: race_of_run_def engine_defs flow_defs page_both_def w0_def
      new_InstanceState_def)

theorem fast_path_run_witness:
  "race_of_run (page_both True) ''http://x'' (new_InstanceState 1 0) w0
     = Some \<lparr>winner = GetTask, get_task = TDone (Inr (Some ''a.get-link'')),
             step5_task = TCancelled\<rparr> \<and>
   (clicks_attempted (snd (snd (run_once (page_both True) ''http://x''
        (new_InstanceState 1 0) w0))) = clicks_attempted w0 @
            [''human verification (mtc2)'', ''generate link (mtc2)'', ''download link (mtc2)''] \<or>
    clicks_attempted (snd (snd (run_once (page_both True) ''http://x''
        (new_InstanceState 1 0) w0))) = clicks_attempted w0 @
            [''human verification (mtc2)'', ''generate link (mtc2)'', ''download link (mtc2)'',
             ''Get Link final'']) \<and>
   (case fst (run_once (page_both True) ''http://x'' (new_InstanceState 1 0) w0) of
      Inl e \<Rightarrow> True
    | Inr rs \<Rightarrow>
        map step rs = [''Open URL'', ''Step 2'', ''Step 3'', ''Step 4'',
                       ''Step 5-8 fast path'', ''Done''] \<and>
        clicks_attempted (snd (snd (run_once (page_both True) ''http://x''
            (new_InstanceState 1 0) w0))) = clicks_attempted w0 @
          [''human verification (mtc2)'', ''generate link (mtc2)'',
           ''download link (mtc2)'', ''Get Link final''])"
proof -
  let ?rr = "\<lparr>winner = GetTask, get_task = TDone (Inr (Some ''a.get-link'')),
    step5_task = TCancelled\<rparr>"
  let ?run = "run_once (page_both True) ''http://x'' (new_InstanceState 1 0) w0"
  have h1: "race_of_run (page_both True) ''http://x'' (new_InstanceState 1 0) w0 = Some ?rr"
    by (simp add: race_of_run_def engine_defs flow_defs page_both_def w0_def
        new_InstanceState_def)
  have h2: "winner ?rr = GetTask" by simp
  have h3: "task_result (get_task ?rr) = Inr (Some ''a.get-link'')" by simp
  have h4: "''a.get-link'' \<noteq> []" by simp
  have h5: "?run = (fst ?run, fst (snd ?run), snd (snd ?run))" by simp
  from fast_path_run [OF h1 h2 h3 h4 h5] h1 show ?thesis by simp
qed

lemma runner_iteration_success:
  assumes "iteration_run env urls st0 w0 = Some (url, st, w)"
    and "run_once env url st w = (Inr rs, st', w')"
  shows "successes (fst (snd (runner_iteration env urls st0 w0))) = successes st0 + 1 \<and>
         runs (fst (snd (runner_iteration env urls st0 w0))) = runs st0 + 1 \<and>
         failures (fst (snd (runner_iteration env urls st0 w0))) = failures st0 \<and>
         last_detail (fst (snd (runner_iteration env urls st0 w0)))
           = (if rs \<noteq> [] then detail (last rs) else [])"
proof -
  from assms(1) obtain w1 where p: "pick_url env urls w0 = (Inr url, w1)" "w = w1"
    "st = st0\<lparr>inst_status := ''running'', current_step := ''pick url'',
              last_url := url, started_at := clock w1\<rparr>"
    by (auto simp: iteration_run_def split: prod.splits sum.splits)
  from assms(2) have "frozen st st'" by (rule run_once_frozen)
  then have same: "runs st' = runs st0" "successes st' = successes st0"
    "failures st' = failures st0"
    using p(3) by (auto dest: frozen_counters)
  let ?st4 = "st'\<lparr>runs := runs st' + 1, successes := successes st' + 1,
    last_detail := (if rs \<noteq> [] then detail (last rs) else []),
    inst_status := ''idle'', current_step := ''sleep 1s''\<rparr>"
  let ?w3 = "w'\<lparr>total_done := total_done w' + 1\<rparr>"
  obtain r4 w4 where sl: "sleep env 1000 ?w3 = (r4, w4)" by (cases "sleep env 1000 ?w3")
  have "fst (snd (runner_iteration env urls st0 w0)) = ?st4"
  proof (cases r4)
    case (Inl e)
    with sl have "e = CancelledError" by (auto dest: sleep_raises_cancelled)
    with p assms(2) sl Inl show ?thesis
      by (simp add: runner_iteration_def on_failure_def)
  next
    case (Inr u)
    with p assms(2) sl show ?thesis
      by (simp add: runner_iteration_def)
  qed
  with same show ?thesis by simp
qed

text \<open>
  C2, as the code has it. A run that takes the verify path and completes returns nine
  entries: \<open>Open URL\<close>, \<open>Step 2\<close> to \<open>Step 8\<close>, and the \<open>Done\<close> entry that the cleanup
  appends to the list it returns. Every entry has status \<open>OK\<close>, the seven clicks were
  attempted in order, and the pass of the worker's loop that made the run raises the
  success counter by one and leaves the failure counter alone.
\<close>

theorem verify_path_run:
  assumes "iteration_run env urls st0 w0 = Some (url, st, w)"
    and "race_of_run env url st w = Some rr"
    and "winner rr = Step5Task"
    and "task_result (step5_task rr) = Inr (Some sel)" and "sel \<noteq> []"
    and "run_once env url st w = (Inr rs, st', w')"
  shows "map step rs = [''Open URL'', ''Step 2'', ''Step 3'', ''Step 4'', ''Step 5'',
                        ''Step 6'', ''Step 7'', ''Step 8'', ''Done''] \<and>
         list_all (\<lambda>r. status r = ''OK'') rs \<and>
         clicks_attempted w' = clicks_attempted w @
           [''human verification (mtc2)'', ''generate link (mtc2)'', ''download link (mtc2)'',
            ''human verification (mtc1)'', ''generate link (mtc1)'', ''download link (mtc1)'',
            ''Get Link final''] \<and>
         successes (fst (snd (runner_iteration env urls st0 w0))) = successes st0 + 1 \<and>
         failures (fst (snd (runner_iteration env urls st0 w0))) = failures st0"
proof -
  from assms(6) obtain r0 s' where rs: "run_session env url st w = (r0, s')"
    and w': "w' = world_of s'"
    and r: "Inr rs = (case r0 of Inl e \<Rightarrow> Inl e | Inr u \<Rightarrow> Inr (results s'))"
    by (rule run_once_session)
  from r have r0: "r0 = Inr ()" "rs = results s'" by (auto split: sum.splits)
  from assms(3-5) have verify: "choose_branch rr = Inr VerifyPath"
    by (simp add: choose_branch_def elif_branch_def)
  from run_session_route [OF rs] assms(2) verify r0(1) obtain k fin where
    k: "k = length (route_1_to_4 url @ route_verify)"
    and res: "results s' = entries_of (take k (route_1_to_4 url @ route_verify)) @ fin"
    and cl: "clicks_attempted (world_of s')
             = clicks_attempted w @ clicks_of (take k (route_1_to_4 url @ route_verify))"
    and fin: "\<exists>d. fin = [done_entry d]"
    by (metis sum.inject(2) path.distinct(1))
  from k res cl fin r0(2) w' have
    "map step rs = [''Open URL'', ''Step 2'', ''Step 3'', ''Step 4'', ''Step 5'',
                    ''Step 6'', ''Step 7'', ''Step 8'', ''Done'']"
    "clicks_attempted w' = clicks_attempted w @
           [''human verification (mtc2)'', ''generate link (mtc2)'', ''download link (mtc2)'',
            ''human verification (mtc1)'', ''generate link (mtc1)'', ''download link (mtc1)'',
            ''Get Link final'']"
    by (auto simp: route_1_to_4_def route_verify_def done_entry_def)
  moreover from assms(6) have "list_all (\<lambda>r. status r = ''OK'') rs"
    by (rule run_once_all_ok)
  moreover note runner_iteration_success [OF assms(1,6)]
  ultimately show ?thesis by simp
qed

text \<open>
  C2 as stated fails on the page \<open>page_both False\<close>: the verification group wins the
  race, every click succeeds at its first selector, and the run returns nine entries,
  not eight.
\<close>

theorem verify_path_run_counterexample:
  "map_option winner (race_of_run (page_both False) ''http://x'' (new_InstanceState 1 0) w0)
     = Some Step5Task \<and>
   (\<exists>rs. fst (run_once (page_both False) ''http://x'' (new_InstanceState 1 0) w0) = Inr rs \<and>
      length rs \<noteq> 8 \<and>
      map step rs = [''Open URL'', ''Step 2'', ''Step 3'', ''Step 4'', ''Step 5'',
                     ''Step 6'', ''Step 7'', ''Step 8'', ''Done''])"
  by (simp add: race_of_run_def engine_defs flow_defs page_both_def w0_def
      new_InstanceState_def)

theorem verify_path_run_witness:
  "iteration_run (page_both False) [''http://x''] (new_InstanceState 1 0) w0
     = Some (''http://x'',
             (new_InstanceState 1 0)\<lparr>inst_status := ''running'', current_step := ''pick url'',
                last_url := ''http://x'', started_at := 10\<rparr>,
             \<lparr>clock = 10, trace = [(RandomChoice, Inr None)], total_done = 0\<rparr>) \<and>
   race_of_run (page_both False) ''http://x''
       ((new_InstanceState 1 0)\<lparr>inst_status := ''running'', current_step := ''pick url'',
          last_url := ''http://x'', started_at := 10\<rparr>)
       \<lparr>clock = 10, trace = [(RandomChoice, Inr None)], total_done = 0\<rparr>
     = Some \<lparr>winner = Step5Task, get_task = TCancelled,
             step5_task = TDone (Inr (Some ''a#wpsafelinkhuman[href*='mtc1.heygirlish.com']''))\<rparr> \<and>
   (case fst (run_once (page_both False) ''http://x''
       ((new_InstanceState 1 0)\<lparr>inst_status := ''running'', current_step := ''pick url'',
          last_url := ''http://x'', started_at := 10\<rparr>)
       \<lparr>clock = 10, trace = [(RandomChoice, Inr None)], total_done = 0\<rparr>) of
      Inl e \<Rightarrow> False
    | Inr rs \<Rightarrow>
        map step rs = [''Open URL'', ''Step 2'', ''Step 3'', ''Step 4'', ''Step 5'',
                       ''Step 6'', ''Step 7'', ''Step 8'', ''Done''] \<and>
        list_all (\<lambda>r. status r = ''OK'') rs) \<and>
   successes (fst (snd (runner_iteration (page_both False) [''http://x'']
       (new_InstanceState 1 0) w0))) = successes (new_InstanceState 1 0) + 1 \<and>
   failures (fst (snd (runner_iteration (page_both False) [''http://x'']
       (new_InstanceState 1 0) w0))) = failures (new_InstanceState 1 0)"
proof -
  let ?st = "(new_InstanceState 1 0)\<lparr>inst_status := ''running'', current_step := ''pick url'',
    last_url := ''http://x'', started_at := 10\<rparr>"
  let ?w = "\<lparr>clock = 10, trace = [(RandomChoice, Inr None)], total_done = 0\<rparr>"
  let ?rr = "\<lparr>winner = Step5Task, get_task = TCancelled,
    step5_task = TDone (Inr (Some ''a#wpsafelinkhuman[href*='mtc1.heygirlish.com']''))\<rparr>"
  let ?run = "run_once (page_both False) ''http://x'' ?st ?w"
  have h1: "iteration_run (page_both False) [''http://x''] (new_InstanceState 1 0) w0
      = Some (''http://x'', ?st, ?w)"
    by (simp add: iteration_run_def pick_url_def call_def page_both_def w0_def)
  have h2: "race_of_run (page_both False) ''http://x'' ?st ?w = Some ?rr"
    by (simp add: race_of_run_def engine_defs flow_defs page_both_def new_InstanceState_def)
  have h3: "winner ?rr = Step5Task" by simp
  have h4: "task_result (step5_task ?rr)
      = Inr (Some ''a#wpsafelinkhuman[href*='mtc1.heygirlish.com']'')" by simp
  have h5: "''a#wpsafelinkhuman[href*='mtc1.heygirlish.com']'' \<noteq> []" by simp
  have "\<exists>rs. fst ?run = Inr rs"
    by (simp add: engine_defs flow_defs page_both_def new_InstanceState_def)
  then obtain rs where rs: "fst ?run = Inr rs" ..
  then have h6: "?run = (Inr rs, fst (snd ?run), snd (snd ?run))"
    by (metis prod.collapse)
  from verify_path_run [OF h1 h2 h3 h4 h5 h6] h1 h2 rs show ?thesis by simp
qed

section \<open>The race\<close>










section \<open>What \<open>hard_click\<close> raises, and when\<close>












































text \<open>
  The calls that end a strategy with a click: when one of them returns, \<open>hard_click\<close>
  returns. A target is never clickable when none of them ever returns; nothing is
  cancelled when every sleep completes and every exception is an \<open>Exception\<close>.
\<close>

fun finishing_op :: "op \<Rightarrow> bool" where
  "finishing_op (ElClick el force t) = True"
| "finishing_op (ElDblClick el t) = True"
| "finishing_op MouseUp = True"
| "finishing_op (PageClick sel t) = True"
| "finishing_op (EvaluateClick el) = True"
| "finishing_op _ = False"
























section \<open>How long a search without success lasts\<close>

text \<open>
  When every selector of the list times out in the same way and every sleep lasts the
  same, a pass of the loop of \<open>hard_click\<close> lasts, for each selector, the timeout,
  the sleep of the handler, and at its end one more sleep.
\<close>

lemma sleep_exact:
  assumes "\<And>w. env w (Sleep ms) = (Inr v0, s0)"
  shows "\<exists>w'. sleep env ms w = (Inr (), w') \<and> clock w' = clock w + ms + s0"
  by (simp add: sleep_def assms)

lemma for_selectors_all_timeout:
  assumes "\<And>w sel. sel \<in> set sels \<Longrightarrow> env w (WaitForSelector sel POLL_MS) = (Inl e0, t0)"
    and "is_Exception e0"
    and "\<And>w. env w (Sleep POLL_MS) = (Inr v0, s0)"
  shows "\<exists>w'. for_selectors env sels d le w = (Next (if sels = [] then le else Some e0), w') \<and>
           clock w' = clock w + length sels * (t0 + POLL_MS + s0)"
  using assms(1)
proof (induction sels arbitrary: le w)
  case Nil
  show ?case by simp
next
  case (Cons sel sels)
  let ?w1 = "w\<lparr>clock := clock w + t0,
    trace := (WaitForSelector sel POLL_MS, Inl e0) # trace w\<rparr>"
  have c: "call env (WaitForSelector sel POLL_MS) w = (Inl e0, ?w1)"
    using Cons.prems [of sel w] by (simp add: call_def)
  have "\<exists>w2. sleep env POLL_MS ?w1 = (Inr (), w2) \<and> clock w2 = clock ?w1 + POLL_MS + s0"
    by (rule sleep_exact) (rule assms(3))
  then obtain w2 where
    sl: "sleep env POLL_MS ?w1 = (Inr (), w2)" "clock w2 = clock w + t0 + POLL_MS + s0"
    by auto
  from c sl assms(2) have ts: "try_selector env sel d le w = (Next (Some e0), w2)"
    by (simp add: try_selector_def)
  from Cons.IH [where le = "Some e0" and w = w2] Cons.prems obtain w' where
    "for_selectors env sels d (Some e0) w2 = (Next (if sels = [] then Some e0 else Some e0), w')"
    "clock w' = clock w2 + length sels * (t0 + POLL_MS + s0)"
    by auto
  with ts sl(2) show ?case by (simp add: algebra_simps)
qed

lemma hard_click_loop_exact:
  assumes "\<And>w sel. sel \<in> set sels \<Longrightarrow> env w (WaitForSelector sel POLL_MS) = (Inl e0, t0)"
    and "is_Exception e0"
    and "\<And>w. env w (Sleep POLL_MS) = (Inr v0, s0)"
    and "sels \<noteq> []"
    and "P = length sels * (t0 + POLL_MS + s0) + POLL_MS + s0"
  shows "clock w + n * P < deadline \<Longrightarrow> deadline \<le> clock w + Suc n * P \<Longrightarrow>
    \<exists>w'. hard_click_loop env sels desc d deadline le w = (Inl e0, w') \<and>
      clock w' = clock w + Suc n * P"
proof (induction n arbitrary: le w)
  case 0
  then have now: "clock w < deadline" by simp
  have "\<exists>w1. for_selectors env sels d le w = (Next (if sels = [] then le else Some e0), w1) \<and>
      clock w1 = clock w + length sels * (t0 + POLL_MS + s0)"
    by (rule for_selectors_all_timeout) (simp_all add: assms(1-3))
  with assms(4) obtain w1 where
    fs: "for_selectors env sels d le w = (Next (Some e0), w1)"
      "clock w1 = clock w + length sels * (t0 + POLL_MS + s0)"
    by auto
  have "\<exists>w2. sleep env POLL_MS w1 = (Inr (), w2) \<and> clock w2 = clock w1 + POLL_MS + s0"
    by (rule sleep_exact) (rule assms(3))
  then obtain w2 where
    sl: "sleep env POLL_MS w1 = (Inr (), w2)" "clock w2 = clock w1 + POLL_MS + s0"
    by auto
  from fs(2) sl(2) assms(5) have c2: "clock w2 = clock w + P" by simp
  with 0 have "\<not> clock w2 < deadline" by simp
  then have "hard_click_loop env sels desc d deadline (Some e0) w2 = (Inl e0, w2)"
    by (simp add: hard_click_loop.simps)
  with now fs(1) sl(1) have "hard_click_loop env sels desc d deadline le w = (Inl e0, w2)"
    by (subst hard_click_loop.simps) simp
  with c2 show ?case by simp
next
  case (Suc n)
  then have now: "clock w < deadline" by simp
  have "\<exists>w1. for_selectors env sels d le w = (Next (if sels = [] then le else Some e0), w1) \<and>
      clock w1 = clock w + length sels * (t0 + POLL_MS + s0)"
    by (rule for_selectors_all_timeout) (simp_all add: assms(1-3))
  with assms(4) obtain w1 where
    fs: "for_selectors env sels d le w = (Next (Some e0), w1)"
      "clock w1 = clock w + length sels * (t0 + POLL_MS + s0)"
    by auto
  have "\<exists>w2. sleep env POLL_MS w1 = (Inr (), w2) \<and> clock w2 = clock w1 + POLL_MS + s0"
    by (rule sleep_exact) (rule assms(3))
  then obtain w2 where
    sl: "sleep env POLL_MS w1 = (Inr (), w2)" "clock w2 = clock w1 + POLL_MS + s0"
    by auto
  from fs(2) sl(2) assms(5) have c2: "clock w2 = clock w + P" by simp
  with Suc.prems have "clock w2 + n * P < deadline" "deadline \<le> clock w2 + Suc n * P"
    by (simp_all add: algebra_simps)
  from Suc.IH [OF this, where le = "Some e0"] obtain w' where
    rest: "hard_click_loop env sels desc d deadline (Some e0) w2 = (Inl e0, w')"
      "clock w' = clock w2 + Suc n * P"
    by auto
  from now fs(1) sl(1) rest(1) have
    "hard_click_loop env sels desc d deadline le w = (Inl e0, w')"
    by (subst hard_click_loop.simps) simp
  with rest(2) c2 show ?case by (simp add: algebra_simps)
qed

text \<open>
  A page on which no selector is ever found and no click ever lands: a search for an
  element times out after the time it was given, a click raises, a sleep lasts exactly
  as long as asked, and every other call returns after 10 ms.
\<close>

definition page_dead :: env where
  "page_dead w a =
     (if finishing_op a then (Inl (Error ''Element is not attached to the DOM''), 10)
      else case a of
        WaitForSelector sel t \<Rightarrow> (Inl (PlaywrightTimeout ''Timeout exceeded.''), t)
      | Sleep ms \<Rightarrow> (Inr None, 0)
      | RandomSleep lo hi \<Rightarrow> (Inr None, 0)
      | _ \<Rightarrow> (Inr None, 10))"



text \<open>On that page a \<open>hard_click\<close> with six selectors raises 61.1 seconds after its call.\<close>

lemma hard_click_page_dead:
  assumes "length many = 5"
  shows "\<exists>w'. hard_click page_dead selector desc many d w
           = (Inl (PlaywrightTimeout ''Timeout exceeded.''), w') \<and>
         clock w' = clock w + 61100"
proof -
  let ?w0 = "w\<lparr>trace := (HardClick desc, Inr None) # trace w\<rparr>"
  have "\<exists>w'. hard_click_loop page_dead (selector # many) desc d (clock w + MAX_FIND_MS) None ?w0
      = (Inl (PlaywrightTimeout ''Timeout exceeded.''), w') \<and>
    clock w' = clock ?w0 + Suc 46 * 1300"
  proof (rule hard_click_loop_exact [where ?t0.0 = POLL_MS and ?s0.0 = 0 and ?v0.0 = None])
    show "page_dead w (WaitForSelector sel POLL_MS)
        = (Inl (PlaywrightTimeout ''Timeout exceeded.''), POLL_MS)" for w sel
      by (simp add: page_dead_def)
    show "page_dead w (Sleep POLL_MS) = (Inr None, 0)" for w
      by (simp add: page_dead_def)
    show "1300 = length (selector # many) * (POLL_MS + POLL_MS + 0) + POLL_MS + 0"
      using assms by (simp add: POLL_MS_def)
  qed (simp_all add: MAX_FIND_MS_def)
  then show ?thesis by (simp add: hard_click_def)
qed



section \<open>Which selector \<open>hard_click\<close> clicks, and by which strategy\<close>






















subsection \<open>The whole search, pass after pass\<close>







































section \<open>A race that nobody wins\<close>

text \<open>
  When every selector of the list times out in the same way and every sleep lasts the
  same, a pass of the loop of \<open>wait_for_any_visible\<close> lasts the timeouts and one
  sleep, and the loop returns \<open>None\<close> at the end of the first pass that ends at or
  after the deadline.
\<close>

lemma poll_selectors_all_timeout:
  assumes "\<And>w sel. sel \<in> set sels \<Longrightarrow> env w (WaitForSelector sel POLL_MS) = (Inl e0, t0)"
    and "is_Exception e0"
  shows "\<exists>w'. poll_selectors env sels w = (Inr None, w') \<and>
           clock w' = clock w + length sels * t0"
  using assms(1)
proof (induction sels arbitrary: w)
  case Nil
  show ?case by simp
next
  case (Cons sel sels)
  let ?w1 = "w\<lparr>clock := clock w + t0,
    trace := (WaitForSelector sel POLL_MS, Inl e0) # trace w\<rparr>"
  have c: "call env (WaitForSelector sel POLL_MS) w = (Inl e0, ?w1)"
    using Cons.prems [of sel w] by (simp add: call_def)
  from Cons.IH [where w = ?w1] Cons.prems obtain w' where
    "poll_selectors env sels ?w1 = (Inr None, w')"
    "clock w' = clock ?w1 + length sels * t0"
    by auto
  with c assms(2) show ?case by (simp add: algebra_simps)
qed

lemma wait_for_any_visible_loop_exact:
  assumes "\<And>w sel. sel \<in> set sels \<Longrightarrow> env w (WaitForSelector sel POLL_MS) = (Inl e0, t0)"
    and "is_Exception e0"
    and "\<And>w. env w (Sleep POLL_MS) = (Inr v0, s0)"
    and "P = length sels * t0 + POLL_MS + s0"
  shows "clock w + n * P < deadline \<Longrightarrow> deadline \<le> clock w + Suc n * P \<Longrightarrow>
    \<exists>w'. wait_for_any_visible_loop env sels deadline w = (Inr None, w') \<and>
      clock w' = clock w + Suc n * P"
proof (induction n arbitrary: w)
  case 0
  then have now: "clock w < deadline" by simp
  have "\<exists>w1. poll_selectors env sels w = (Inr None, w1) \<and>
      clock w1 = clock w + length sels * t0"
    by (rule poll_selectors_all_timeout [where ?e0.0 = e0]) (simp_all add: assms(1,2))
  then obtain w1 where
    ps: "poll_selectors env sels w = (Inr None, w1)" "clock w1 = clock w + length sels * t0"
    by auto
  have "\<exists>w2. sleep env POLL_MS w1 = (Inr (), w2) \<and> clock w2 = clock w1 + POLL_MS + s0"
    by (rule sleep_exact) (rule assms(3))
  then obtain w2 where
    sl: "sleep env POLL_MS w1 = (Inr (), w2)" "clock w2 = clock w1 + POLL_MS + s0"
    by auto
  from ps(2) sl(2) assms(4) have c2: "clock w2 = clock w + P" by simp
  with 0 have "\<not> clock w2 < deadline" by simp
  then have "wait_for_any_visible_loop env sels deadline w2 = (Inr None, w2)"
    by (simp add: wait_for_any_visible_loop.simps)
  with now ps(1) sl(1) have "wait_for_any_visible_loop env sels deadline w = (Inr None, w2)"
    by (subst wait_for_any_visible_loop.simps) simp
  with c2 show ?case by simp
next
  case (Suc n)
  then have now: "clock w < deadline" by simp
  have "\<exists>w1. poll_selectors env sels w = (Inr None, w1) \<and>
      clock w1 = clock w + length sels * t0"
    by (rule poll_selectors_all_timeout [where ?e0.0 = e0]) (simp_all add: assms(1,2))
  then obtain w1 where
    ps: "poll_selectors env sels w = (Inr None, w1)" "clock w1 = clock w + length sels * t0"
    by auto
  have "\<exists>w2. sleep env POLL_MS w1 = (Inr (), w2) \<and> clock w2 = clock w1 + POLL_MS + s0"
    by (rule sleep_exact) (rule assms(3))
  then obtain w2 where
    sl: "sleep env POLL_MS w1 = (Inr (), w2)" "clock w2 = clock w1 + POLL_MS + s0"
    by auto
  from ps(2) sl(2) assms(4) have c2: "clock w2 = clock w + P" by simp
  with Suc.prems have "clock w2 + n * P < deadline" "deadline \<le> clock w2 + Suc n * P"
    by (simp_all add: algebra_simps)
  from Suc.IH [OF this] obtain w' where
    rest: "wait_for_any_visible_loop env sels deadline w2 = (Inr None, w')"
      "clock w' = clock w2 + Suc n * P"
    by auto
  from now ps(1) sl(1) rest(1) have
    "wait_for_any_visible_loop env sels deadline w = (Inr None, w')"
    by (subst wait_for_any_visible_loop.simps) simp
  with rest(2) c2 show ?case by (simp add: algebra_simps)
qed

text \<open>
  A page that stalls after step 4: the elements of steps 2 to 4 are found at once and
  a click on them lands, but neither the \<open>Get Link\<close> group nor the verification group
  of step 5 ever shows. A search for one of their selectors times out 1 ms after
  the time it was given; a sleep lasts exactly as long as asked.
\<close>

definition stalled :: env where
  "stalled w a =
     (case a of
        WaitForSelector sel t \<Rightarrow>
          if sel \<in> set get_link_selectors \<union> set step5_selectors
          then (Inl (PlaywrightTimeout ''Timeout exceeded.''), t + 1)
          else (Inr (Some 1), 20)
      | Sleep ms \<Rightarrow> (Inr None, 0)
      | RandomSleep lo hi \<Rightarrow> (Inr None, 0)
      | _ \<Rightarrow> (Inr None, 10))"

lemma stalled_get_link:
  "\<exists>w'. wait_for_any_visible stalled get_link_selectors MAX_FIND_MS w = (Inr None, w') \<and>
     clock w' = clock w + 60525"
proof -
  have "\<exists>w'. wait_for_any_visible_loop stalled get_link_selectors (clock w + MAX_FIND_MS) w
      = (Inr None, w') \<and> clock w' = clock w + Suc 74 * 807"
  proof (rule wait_for_any_visible_loop_exact
      [where ?t0.0 = "POLL_MS + 1" and ?s0.0 = 0 and ?v0.0 = None])
    show "stalled w (WaitForSelector sel POLL_MS)
        = (Inl (PlaywrightTimeout ''Timeout exceeded.''), POLL_MS + 1)"
      if "sel \<in> set get_link_selectors" for w sel
      using that by (simp add: stalled_def)
    show "stalled w (Sleep POLL_MS) = (Inr None, 0)" for w
      by (simp add: stalled_def)
    show "807 = length get_link_selectors * (POLL_MS + 1) + POLL_MS + 0"
      by (simp add: get_link_selectors_def POLL_MS_def)
  qed (simp_all add: MAX_FIND_MS_def)
  then show ?thesis by (simp add: wait_for_any_visible_def)
qed

lemma stalled_step5:
  "\<exists>w'. wait_for_any_visible stalled step5_selectors MAX_FIND_MS w = (Inr None, w') \<and>
     clock w' = clock w + 60500"
proof -
  have "\<exists>w'. wait_for_any_visible_loop stalled step5_selectors (clock w + MAX_FIND_MS) w
      = (Inr None, w') \<and> clock w' = clock w + Suc 99 * 605"
  proof (rule wait_for_any_visible_loop_exact
      [where ?t0.0 = "POLL_MS + 1" and ?s0.0 = 0 and ?v0.0 = None])
    show "stalled w (WaitForSelector sel POLL_MS)
        = (Inl (PlaywrightTimeout ''Timeout exceeded.''), POLL_MS + 1)"
      if "sel \<in> set step5_selectors" for w sel
      using that by (simp add: stalled_def)
    show "stalled w (Sleep POLL_MS) = (Inr None, 0)" for w
      by (simp add: stalled_def)
    show "605 = length step5_selectors * (POLL_MS + 1) + POLL_MS + 0"
      by (simp add: step5_selectors_def POLL_MS_def)
  qed (simp_all add: MAX_FIND_MS_def)
  then show ?thesis by (simp add: wait_for_any_visible_def)
qed

text \<open>
  So the verification group's task is done first, with \<open>None\<close>, 25 ms before the
  other, which is cancelled.
\<close>

lemma race_stalled:
  "fst (race stalled w)
     = Inr \<lparr>winner = Step5Task, get_task = TCancelled, step5_task = TDone (Inr None)\<rparr>"
proof -
  from stalled_get_link [of w] obtain wg where
    g: "wait_for_any_visible stalled get_link_selectors MAX_FIND_MS w = (Inr None, wg)"
      "clock wg = clock w + 60525"
    by blast
  from stalled_step5 [of w] obtain ws where
    s: "wait_for_any_visible stalled step5_selectors MAX_FIND_MS w = (Inr None, ws)"
      "clock ws = clock w + 60500"
    by blast
  have "call stalled AsyncioWait ws
      = (Inr None, ws\<lparr>clock := clock ws + 10, trace := (AsyncioWait, Inr None) # trace ws\<rparr>)"
    by (simp add: call_def stalled_def)
  with g s show ?thesis by (simp add: race_def)
qed

lemma step5_onwards_stalled: "fst (step5_onwards stalled s) = Inl CancelledError"
proof -
  obtain r w' where r: "race stalled (world_of s) = (r, w')" by (cases "race stalled (world_of s)")
  with race_stalled [of "world_of s"] have
    "r = Inr \<lparr>winner = Step5Task, get_task = TCancelled, step5_task = TDone (Inr None)\<rparr>"
    by simp
  with r show ?thesis
    by (simp add: step5_onwards_def bind_exn_def set_step_def on_world_def after_race_def
        choose_branch_def elif_branch_def else_branch_def)
qed

lemma steps_1_to_4_stalled: "fst (steps_1_to_4 stalled url s) = Inr ()"
  by (simp add: engine_defs flow_defs stalled_def)

text \<open>
  On that page the cleanup raises nothing, so a run ends as its \<open>try\<close> block ended:
  steps 1 to 4 pass, the race ends with the verification group's task done and the
  other cancelled, neither branch is taken, and in the \<open>else\<close> branch
  \<open>get_task.result()\<close> raises \<open>CancelledError\<close>, which \<open>except Exception\<close> lets
  through.
\<close>

lemma finally_block_stalled: "fst (finally_block stalled t r s) = r"
  by (simp add: finally_block_def close_context_def close_browser_def append_done_def
      append_result_def on_world_def attempt_def call_def stalled_def)

lemma try_block_stalled: "fst (try_block stalled url s) = Inl CancelledError"
proof -
  obtain r1 s1 where a: "steps_1_to_4 stalled url s = (r1, s1)"
    by (cases "steps_1_to_4 stalled url s")
  with steps_1_to_4_stalled [of url s] have r1: "r1 = Inr ()" by simp
  obtain r2 s2 where b: "step5_onwards stalled s1 = (r2, s2)"
    by (cases "step5_onwards stalled s1")
  with step5_onwards_stalled [of s1] have "r2 = Inl CancelledError" by simp
  with a r1 b show ?thesis by (simp add: try_block_def)
qed

lemma run_once_stalled: "fst (run_once stalled url st w) = Inl CancelledError"
proof -
  obtain s1 where e: "enter stalled st w = (Inr (), s1)"
    by (simp add: enter_def bind_exn_def on_world_def perform_def call_def stalled_def
        set_step_def)
  obtain r2 s2 where t: "try_block stalled url s1 = (r2, s2)"
    by (cases "try_block stalled url s1")
  with try_block_stalled [of url s1] have r2: "r2 = Inl CancelledError" by simp
  obtain r3 s3 where f: "finally_block stalled (clock w) r2 s2 = (r3, s3)"
    by (cases "finally_block stalled (clock w) r2 s2")
  with finally_block_stalled [of "clock w" r2 s2] r2 have r3: "r3 = Inl CancelledError"
    by simp
  obtain s4 where p: "on_world (perform stalled PlaywrightStop) s3 = (Inr (), s4)"
    by (simp add: on_world_def perform_def call_def stalled_def)
  from e t f r3 p have "run_session stalled url st w = (Inl CancelledError, s4)"
    by (simp add: run_session_def)
  then show ?thesis by (simp add: run_once_def)
qed

text \<open>
  C3 fails on the code. On the page \<open>stalled\<close> neither group ever shows, each search
  returns \<open>None\<close> after its deadline, and the run ends with \<open>CancelledError\<close>, not
  with the \<open>RuntimeError\<close> of line 511 that names both outcomes.
\<close>

theorem race_undetermined_run:
  "(\<forall>w. fst (wait_for_any_visible stalled get_link_selectors MAX_FIND_MS w) = Inr None) \<and>
   (\<forall>w. fst (wait_for_any_visible stalled step5_selectors MAX_FIND_MS w) = Inr None) \<and>
   fst (run_once stalled ''http://x'' (new_InstanceState 1 0) w0) = Inl CancelledError \<and>
   (\<forall>m. fst (run_once stalled ''http://x'' (new_InstanceState 1 0) w0)
      \<noteq> Inl (RuntimeError m))"
proof -
  have "fst (wait_for_any_visible stalled get_link_selectors MAX_FIND_MS w) = Inr None" for w
    using stalled_get_link [of w] by auto
  moreover
  have "fst (wait_for_any_visible stalled step5_selectors MAX_FIND_MS w) = Inr None" for w
    using stalled_step5 [of w] by auto
  ultimately show ?thesis by (simp add: run_once_stalled)
qed

text \<open>
  C4 fails on the code for the same reason. The \<open>CancelledError\<close> of that run is no
  \<open>Exception\<close>, so the handler of the worker's loop does not run: the first pass of
  the loop ends the task, no failure is counted and the status stays \<open>running\<close>.
\<close>

theorem runner_task_ends:
  "fst (runner_task (Suc n) stalled [''http://x''] (new_InstanceState 1 0) w0)
     = Some CancelledError \<and>
   failures (fst (snd (runner_task (Suc n) stalled [''http://x''] (new_InstanceState 1 0) w0)))
     = 0 \<and>
   runs (fst (snd (runner_task (Suc n) stalled [''http://x''] (new_InstanceState 1 0) w0)))
     = 0 \<and>
   inst_status
     (fst (snd (runner_task (Suc n) stalled [''http://x''] (new_InstanceState 1 0) w0)))
     = ''running''"
proof -
  let ?st2 = "(new_InstanceState 1 0)\<lparr>inst_status := ''running'', current_step := ''pick url'',
    last_url := ''http://x'', started_at := 10\<rparr>"
  let ?w1 = "w0\<lparr>clock := clock w0 + 10, trace := (RandomChoice, Inr None) # trace w0\<rparr>"
  obtain r st3 w2 where run: "run_once stalled ''http://x'' ?st2 ?w1 = (r, st3, w2)"
    by (cases "run_once stalled ''http://x'' ?st2 ?w1") auto
  with run_once_stalled [of "''http://x''" ?st2 ?w1] have r: "r = Inl CancelledError" by simp
  from run_once_frozen [OF run] have st3: "st3\<lparr>current_step := ''pick url''\<rparr> = ?st2"
    by (simp add: frozen_def)
  have "failures st3 = failures (st3\<lparr>current_step := ''pick url''\<rparr>)"
    "runs st3 = runs (st3\<lparr>current_step := ''pick url''\<rparr>)"
    "inst_status st3 = inst_status (st3\<lparr>current_step := ''pick url''\<rparr>)"
    by simp_all
  with st3 have keep: "failures st3 = 0" "runs st3 = 0" "inst_status st3 = ''running''"
    by (simp_all add: new_InstanceState_def)
  have "runner_iteration stalled [''http://x''] (new_InstanceState 1 0) w0
      = (Some CancelledError, st3, w2)"
    using run r
    by (simp add: runner_iteration_def pick_url_def call_def stalled_def on_failure_def Let_def
        w0_def)
  with keep show ?thesis by simp
qed

section \<open>A run in which a step fails\<close>

text \<open>
  The calls of the cleanup: the two closes of the \<open>finally\<close> and the exit of
  \<open>async_playwright\<close>. The cleanup is undisturbed when a close raises nothing but an
  \<open>Exception\<close> and the exit raises nothing.
\<close>

fun cleanup_op :: "op \<Rightarrow> bool" where
  "cleanup_op ContextClose = True"
| "cleanup_op BrowserClose = True"
| "cleanup_op PlaywrightStop = True"
| "cleanup_op _ = False"

definition cleanup_undisturbed :: "env \<Rightarrow> bool" where
  "cleanup_undisturbed env =
     (\<forall>w. (case fst (env w ContextClose) of Inl e \<Rightarrow> is_Exception e | Inr v \<Rightarrow> True) \<and>
          (case fst (env w BrowserClose) of Inl e \<Rightarrow> is_Exception e | Inr v \<Rightarrow> True) \<and>
          (case fst (env w PlaywrightStop) of Inl e \<Rightarrow> False | Inr v \<Rightarrow> True))"

text \<open>\<open>tidies s s'\<close>: from \<open>s\<close> to \<open>s'\<close> nothing happened but calls of the cleanup.\<close>

definition tidies :: "run_state \<Rightarrow> run_state \<Rightarrow> bool" where
  "tidies s s' =
     (state s' = state s \<and>
      (\<exists>X. trace (world_of s') = X @ trace (world_of s) \<and>
           list_all (\<lambda>ev. cleanup_op (fst ev)) X))"

lemma tidies_trans: "tidies s s1 \<Longrightarrow> tidies s1 s2 \<Longrightarrow> tidies s s2"
  by (auto simp: tidies_def)

lemma attempt_tidies:
  assumes "case fst (env (world_of s) a) of Inl e \<Rightarrow> is_Exception e | Inr v \<Rightarrow> True"
    and "cleanup_op a"
    and "on_world (attempt env a) s = (r, s')"
  shows "r = Inr () \<and> tidies s s' \<and> results s' = results s"
proof -
  obtain x d where e: "env (world_of s) a = (x, d)" by (cases "env (world_of s) a")
  with assms(1) have "attempt env a (world_of s)
      = (Inr (), (world_of s)\<lparr>clock := clock (world_of s) + d,
           trace := (a, x) # trace (world_of s)\<rparr>)"
    by (cases x) (simp_all add: attempt_def call_def)
  with assms(3) have "r = Inr ()"
    "s' = s\<lparr>world_of := (world_of s)\<lparr>clock := clock (world_of s) + d,
           trace := (a, x) # trace (world_of s)\<rparr>\<rparr>"
    by (simp_all add: on_world_def)
  with assms(2) show ?thesis by (simp add: tidies_def)
qed

lemma finally_block_undisturbed:
  assumes "cleanup_undisturbed env" and "finally_block env t r s = (r', s')"
  shows "r' = r \<and> tidies s s' \<and> (\<exists>d. results s' = results s @ [done_entry d])"
proof -
  have cc: "case fst (env w ContextClose) of Inl e \<Rightarrow> is_Exception e | Inr v \<Rightarrow> True"
    and cb: "case fst (env w BrowserClose) of Inl e \<Rightarrow> is_Exception e | Inr v \<Rightarrow> True" for w
    using assms(1) by (simp_all add: cleanup_undisturbed_def)
  obtain r1 s1 where c: "close_context env s = (r1, s1)" by (cases "close_context env s")
  have 1: "r1 = Inr () \<and> tidies s s1 \<and> results s1 = results s"
  proof (cases "has_context s")
    case True
    with c have "on_world (attempt env ContextClose) s = (r1, s1)"
      by (simp add: close_context_def)
    from attempt_tidies [OF cc _ this] show ?thesis by simp
  next
    case False
    with c show ?thesis by (simp add: close_context_def tidies_def)
  qed
  obtain r2 s2 where b: "close_browser env s1 = (r2, s2)" by (cases "close_browser env s1")
  have 2: "r2 = Inr () \<and> tidies s1 s2 \<and> results s2 = results s1"
  proof (cases "has_browser s1")
    case True
    with b have "on_world (attempt env BrowserClose) s1 = (r2, s2)"
      by (simp add: close_browser_def)
    from attempt_tidies [OF cb _ this] show ?thesis by simp
  next
    case False
    with b show ?thesis by (simp add: close_browser_def tidies_def)
  qed
  from assms(2) c b 1 2 have "r' = r"
    "s' = s2\<lparr>results := results s2
       @ [done_entry (elapsed_detail (clock (world_of s2) - t))]\<rparr>"
    by (simp_all add: finally_block_def append_done_def append_result_def done_entry_def)
  moreover from 1 2 have "tidies s s2" by (blast intro: tidies_trans)
  ultimately show ?thesis using 1 2 by (auto simp: tidies_def)
qed

text \<open>
  With an undisturbed cleanup a run ends as its \<open>try\<close> block ended, and after the
  \<open>try\<close> block it makes calls of the cleanup only and appends the \<open>Done\<close> entry.
\<close>

lemma run_session_undisturbed:
  assumes "cleanup_undisturbed env"
    and "enter env st w = (Inr (), s1)"
    and "try_block env url s1 = (r, s2)"
  shows "\<exists>s'. run_session env url st w = (r, s') \<and> tidies s2 s' \<and>
           (\<exists>d. results s' = results s2 @ [done_entry d])"
proof -
  obtain r3 s3 where f: "finally_block env (clock w) r s2 = (r3, s3)"
    by (cases "finally_block env (clock w) r s2")
  from finally_block_undisturbed [OF assms(1) f] obtain d where
    3: "r3 = r" "tidies s2 s3" "results s3 = results s2 @ [done_entry d]"
    by blast
  obtain x dur where e: "env (world_of s3) PlaywrightStop = (x, dur)"
    by (cases "env (world_of s3) PlaywrightStop")
  with assms(1) obtain v where x: "x = Inr v"
    by (cases x) (auto simp: cleanup_undisturbed_def dest!: spec [of _ "world_of s3"])
  let ?s4 = "s3\<lparr>world_of := (world_of s3)\<lparr>clock := clock (world_of s3) + dur,
    trace := (PlaywrightStop, x) # trace (world_of s3)\<rparr>\<rparr>"
  from e x have p: "on_world (perform env PlaywrightStop) s3 = (Inr (), ?s4)"
    by (simp add: on_world_def perform_def call_def)
  have "tidies s3 ?s4" by (simp add: tidies_def)
  with 3(2) have "tidies s2 ?s4" by (rule tidies_trans)
  moreover from assms(2,3) f 3(1) p have "run_session env url st w = (r, ?s4)"
    by (simp add: run_session_def)
  moreover from 3(3) have "results ?s4 = results s2 @ [done_entry d]" by simp
  ultimately show ?thesis by blast
qed

text \<open>What the handler of the worker's loop makes of the state, whatever the world.\<close>

definition failure_recorded :: "exn \<Rightarrow> InstanceState \<Rightarrow> InstanceState" where
  "failure_recorded e st =
     st\<lparr>runs := runs st + 1, failures := failures st + 1,
        inst_status := ''error/restarting'', last_detail := str_exn e\<rparr>"

lemma on_failure_state:
  "fst (snd (on_failure env e st w)) = (if is_Exception e then failure_recorded e st else st)"
  by (simp add: on_failure_def failure_recorded_def Let_def split: prod.splits sum.splits)

lemma enter_fresh:
  assumes "enter env st w = (r, s1)"
  shows "results s1 = [] \<and> clicks_attempted (world_of s1) = clicks_attempted w"
proof -
  let ?s0 = "\<lparr>world_of = w, state = st, results = [],
    has_browser = False, has_context = False\<rparr>"
  obtain r0 s0' where p0: "on_world (perform env PlaywrightStart) ?s0 = (r0, s0')"
    by (cases "on_world (perform env PlaywrightStart) ?s0")
  from perform_clicks [OF p0] assms p0 show ?thesis
    by (auto simp: enter_def bind_exn_def set_step_def split: sum.splits)
qed

text \<open>
  C9, as the code has it. Let the \<open>try\<close> block of a run end with the exception \<open>e\<close>
  of one of its steps, and let the cleanup be undisturbed. Then \<open>run_once\<close> raises
  \<open>e\<close> itself; after the failure it makes calls of the cleanup only, so no later
  step is run; the entries appended and the clicks attempted up to the failure are
  those of a beginning of the route. What the caller gets is the exception and the
  \<open>InstanceState\<close> as the failing step left it, not the list. When \<open>e\<close> is an
  \<open>Exception\<close>, the handler of the worker counts one run and one failure and stores
  the text of \<open>e\<close> in \<open>last_detail\<close>; when it is not, the handler does not run
  and the state stays as the failing step left it.
\<close>

theorem failed_run:
  assumes "cleanup_undisturbed env"
    and "enter env st w = (Inr (), s1)"
    and "try_block env url s1 = (Inl e, s2)"
  shows "\<exists>w'. run_once env url st w = (Inl e, state s2, w') \<and>
           (\<exists>X. trace w' = X @ trace (world_of s2) \<and>
                list_all (\<lambda>ev. cleanup_op (fst ev)) X) \<and>
           (\<exists>tail k. (tail = route_fast \<or> tail = route_verify) \<and>
              k \<le> length (route_1_to_4 url @ tail) \<and>
              results s2 = entries_of (take k (route_1_to_4 url @ tail)) \<and>
              clicks_attempted (world_of s2)
                = clicks_attempted w @ clicks_of (take k (route_1_to_4 url @ tail))) \<and>
           fst (snd (on_failure env e (state s2) w'))
             = (if is_Exception e then failure_recorded e (state s2) else state s2)"
proof -
  from run_session_undisturbed [OF assms] obtain s' where
    r: "run_session env url st w = (Inl e, s')" and t: "tidies s2 s'"
    by blast
  from r have run: "run_once env url st w = (Inl e, state s', world_of s')"
    by (simp add: run_once_def)
  from t have st: "state s' = state s2"
    and tr: "\<exists>X. trace (world_of s') = X @ trace (world_of s2) \<and>
      list_all (\<lambda>ev. cleanup_op (fst ev)) X"
    by (simp_all add: tidies_def)
  from try_block_route [OF assms(3)] obtain tail k where
    tk: "tail = route_fast \<or> tail = route_verify"
      "stopped_at (route_1_to_4 url @ tail) k s1 s2"
    by blast
  from enter_fresh [OF assms(2)] tk(2) have
    "k \<le> length (route_1_to_4 url @ tail)"
    "results s2 = entries_of (take k (route_1_to_4 url @ tail))"
    "clicks_attempted (world_of s2)
       = clicks_attempted w @ clicks_of (take k (route_1_to_4 url @ tail))"
    by (simp_all add: stopped_at_def)
  with tk(1) have route: "\<exists>tail k. (tail = route_fast \<or> tail = route_verify) \<and>
      k \<le> length (route_1_to_4 url @ tail) \<and>
      results s2 = entries_of (take k (route_1_to_4 url @ tail)) \<and>
      clicks_attempted (world_of s2)
        = clicks_attempted w @ clicks_of (take k (route_1_to_4 url @ tail))"
    by blast
  from run st tr route show ?thesis
    by (intro exI [of _ "world_of s'"] conjI on_failure_state) simp_all
qed

text \<open>
  On the page \<open>page_dead\<close> a run opens the URL and gives up in step 2, when the click
  on the first verification link times out.
\<close>

lemma page_dead_cleanup: "cleanup_undisturbed page_dead"
  by (simp add: cleanup_undisturbed_def page_dead_def)

lemma seq_append:
  "seq (xs @ ys) s = (case seq xs s of (Inl e, s') \<Rightarrow> (Inl e, s') | (Inr u, s') \<Rightarrow> seq ys s')"
  by (induction xs arbitrary: s) (auto split: prod.splits sum.splits)

lemma open_url_page_dead:
  "\<exists>s'. seq [launch_browser page_dead, session_setup page_dead, step_open_url page_dead url] s
       = (Inr (), s') \<and>
     state s' = (state s)\<lparr>current_step := ''open url''\<rparr> \<and>
     results s' = results s @ [\<lparr>step = ''Open URL'', status = ''OK'', detail = url\<rparr>]"
  by (simp add: launch_browser_def session_setup_def step_open_url_def on_world_def
      set_browser_def set_context_def set_step_def append_result_def perform_def call_def
      wait_for_load_def bind_exn_def attempt_def page_dead_def)

lemma step2_page_dead:
  "\<exists>s'. step2 page_dead s = (Inl (PlaywrightTimeout ''Timeout exceeded.''), s') \<and>
     state s' = (state s)\<lparr>current_step := ''step 2: mtc2 verify''\<rparr> \<and>
     results s' = results s"
proof -
  from hard_click_page_dead [of "[''a#wpsafelinkhuman'', ''a[onclick*='wpsafehuman']'',
      ''img[alt='human verification']'', ''a:has(img[alt='human verification'])'',
      ''xpath=//a[@id='wpsafelinkhuman']'']"
      "''a#wpsafelinkhuman[href*='mtc2.smsopdappointment.com']''"
      "''human verification (mtc2)''" False "world_of s"]
  obtain w' where "hard_click page_dead ''a#wpsafelinkhuman[href*='mtc2.smsopdappointment.com']''
        ''human verification (mtc2)''
        [''a#wpsafelinkhuman'', ''a[onclick*='wpsafehuman']'', ''img[alt='human verification']'',
         ''a:has(img[alt='human verification'])'', ''xpath=//a[@id='wpsafelinkhuman']'']
        False (world_of s) = (Inl (PlaywrightTimeout ''Timeout exceeded.''), w')"
    by auto
  then show ?thesis by (simp add: step2_def set_step_def on_world_def)
qed

lemma try_block_page_dead:
  "\<exists>s'. try_block page_dead url s = (Inl (PlaywrightTimeout ''Timeout exceeded.''), s') \<and>
     state s' = (state s)\<lparr>current_step := ''step 2: mtc2 verify''\<rparr> \<and>
     results s' = results s @ [\<lparr>step = ''Open URL'', status = ''OK'', detail = url\<rparr>]"
proof -
  from open_url_page_dead [of url s] obtain s1 where
    1: "seq [launch_browser page_dead, session_setup page_dead, step_open_url page_dead url] s
        = (Inr (), s1)"
      "state s1 = (state s)\<lparr>current_step := ''open url''\<rparr>"
      "results s1 = results s @ [\<lparr>step = ''Open URL'', status = ''OK'', detail = url\<rparr>]"
    by blast
  from step2_page_dead [of s1] obtain s2 where
    2: "step2 page_dead s1 = (Inl (PlaywrightTimeout ''Timeout exceeded.''), s2)"
      "state s2 = (state s1)\<lparr>current_step := ''step 2: mtc2 verify''\<rparr>"
      "results s2 = results s1"
    by blast
  have "steps_1_to_4 page_dead url
      = seq ([launch_browser page_dead, session_setup page_dead, step_open_url page_dead url]
          @ [step2 page_dead, step3 page_dead, step4 page_dead])"
    by (simp add: steps_1_to_4_def)
  with 1(1) 2(1) have "steps_1_to_4 page_dead url s
      = (Inl (PlaywrightTimeout ''Timeout exceeded.''), s2)"
    by (simp only: seq_append) simp
  then have "try_block page_dead url s = (Inl (PlaywrightTimeout ''Timeout exceeded.''), s2)"
    by (simp add: try_block_def)
  with 1(2,3) 2(2,3) show ?thesis by simp
qed

lemma enter_page_dead:
  "enter page_dead st w
     = (Inr (), \<lparr>world_of = w\<lparr>clock := clock w + 10,
                    trace := (PlaywrightStart, Inr None) # trace w\<rparr>,
                 state = st\<lparr>current_step := ''launching''\<rparr>, results = [],
                 has_browser = False, has_context = False\<rparr>)"
  by (simp add: enter_def bind_exn_def on_world_def perform_def call_def set_step_def
      page_dead_def)

lemma run_session_page_dead:
  "\<exists>s' d. run_session page_dead url st w = (Inl (PlaywrightTimeout ''Timeout exceeded.''), s') \<and>
     state s' = st\<lparr>current_step := ''step 2: mtc2 verify''\<rparr> \<and>
     results s' = [\<lparr>step = ''Open URL'', status = ''OK'', detail = url\<rparr>, done_entry d]"
proof -
  let ?s1 = "\<lparr>world_of = w\<lparr>clock := clock w + 10,
                    trace := (PlaywrightStart, Inr None) # trace w\<rparr>,
                 state = st\<lparr>current_step := ''launching''\<rparr>, results = [],
                 has_browser = False, has_context = False\<rparr>"
  from try_block_page_dead [of url ?s1] obtain s2 where
    t: "try_block page_dead url ?s1 = (Inl (PlaywrightTimeout ''Timeout exceeded.''), s2)"
      "state s2 = st\<lparr>current_step := ''step 2: mtc2 verify''\<rparr>"
      "results s2 = [\<lparr>step = ''Open URL'', status = ''OK'', detail = url\<rparr>]"
    by auto
  from run_session_undisturbed [OF page_dead_cleanup enter_page_dead t(1)] obtain s' d where
    "run_session page_dead url st w = (Inl (PlaywrightTimeout ''Timeout exceeded.''), s')"
    "tidies s2 s'" "results s' = results s2 @ [done_entry d]"
    by blast
  with t(2,3) show ?thesis by (auto simp: tidies_def)
qed

theorem failed_run_witness:
  "cleanup_undisturbed page_dead \<and>
   (\<exists>w'. run_once page_dead ''http://x'' (new_InstanceState 1 0) w0
      = (Inl (PlaywrightTimeout ''Timeout exceeded.''),
         (new_InstanceState 1 0)\<lparr>current_step := ''step 2: mtc2 verify''\<rparr>, w') \<and>
      fst (snd (on_failure page_dead (PlaywrightTimeout ''Timeout exceeded.'')
                  ((new_InstanceState 1 0)\<lparr>current_step := ''step 2: mtc2 verify''\<rparr>) w'))
        = failure_recorded (PlaywrightTimeout ''Timeout exceeded.'')
            ((new_InstanceState 1 0)\<lparr>current_step := ''step 2: mtc2 verify''\<rparr>))"
proof -
  let ?s1 = "\<lparr>world_of = w0\<lparr>clock := clock w0 + 10,
                    trace := (PlaywrightStart, Inr None) # trace w0\<rparr>,
                 state = (new_InstanceState 1 0)\<lparr>current_step := ''launching''\<rparr>,
                 results = [], has_browser = False, has_context = False\<rparr>"
  from try_block_page_dead [of "''http://x''" ?s1] obtain s2 where
    t: "try_block page_dead ''http://x'' ?s1
        = (Inl (PlaywrightTimeout ''Timeout exceeded.''), s2)"
      "state s2 = (new_InstanceState 1 0)\<lparr>current_step := ''step 2: mtc2 verify''\<rparr>"
    by auto
  from failed_run [OF page_dead_cleanup enter_page_dead t(1)] t(2) page_dead_cleanup
  show ?thesis by auto
qed

text \<open>
  C9 as stated fails on \<open>page_dead\<close>. The run had the entries \<open>Open URL\<close> and
  \<open>Done\<close> in its list when it ended; its caller gets the exception and no list, and
  the worker keeps of the run the text of the exception and the name of the step.
\<close>

theorem failed_run_counterexample:
  "map step (results (snd (run_session page_dead ''http://x'' (new_InstanceState 1 0) w0)))
     = [''Open URL'', ''Done''] \<and>
   fst (run_once page_dead ''http://x'' (new_InstanceState 1 0) w0)
     = Inl (PlaywrightTimeout ''Timeout exceeded.'') \<and>
   fst (snd (runner_iteration page_dead [''http://x''] (new_InstanceState 1 0) w0))
     = \<lparr>inst_id = 1, runs = 1, successes = 0, failures = 1,
        current_step = ''step 2: mtc2 verify'', last_url = ''http://x'',
        last_detail = ''Timeout exceeded.'', inst_status = ''error/restarting'',
        started_at = 10, last_duration = 0\<rparr>"
proof -
  from run_session_page_dead [of "''http://x''" "new_InstanceState 1 0" w0] obtain s' d where
    a: "run_session page_dead ''http://x'' (new_InstanceState 1 0) w0
        = (Inl (PlaywrightTimeout ''Timeout exceeded.''), s')"
      "results s' = [\<lparr>step = ''Open URL'', status = ''OK'', detail = ''http://x''\<rparr>,
         done_entry d]"
    by blast
  let ?st2 = "(new_InstanceState 1 0)\<lparr>inst_status := ''running'', current_step := ''pick url'',
    last_url := ''http://x'', started_at := 10\<rparr>"
  let ?w1 = "w0\<lparr>clock := clock w0 + 10, trace := (RandomChoice, Inr None) # trace w0\<rparr>"
  from run_session_page_dead [of "''http://x''" ?st2 ?w1] obtain s2 where
    b: "run_session page_dead ''http://x'' ?st2 ?w1
        = (Inl (PlaywrightTimeout ''Timeout exceeded.''), s2)"
      "state s2 = ?st2\<lparr>current_step := ''step 2: mtc2 verify''\<rparr>"
    by blast
  then have run: "run_once page_dead ''http://x'' ?st2 ?w1
      = (Inl (PlaywrightTimeout ''Timeout exceeded.''),
         ?st2\<lparr>current_step := ''step 2: mtc2 verify''\<rparr>, world_of s2)"
    by (simp add: run_once_def)
  have "fst (snd (runner_iteration page_dead [''http://x''] (new_InstanceState 1 0) w0))
      = failure_recorded (PlaywrightTimeout ''Timeout exceeded.'')
          (?st2\<lparr>current_step := ''step 2: mtc2 verify''\<rparr>)"
    using run on_failure_state [of page_dead "PlaywrightTimeout ''Timeout exceeded.''"
        "?st2\<lparr>current_step := ''step 2: mtc2 verify''\<rparr>" "world_of s2"]
    by (simp add: runner_iteration_def pick_url_def call_def page_dead_def Let_def w0_def)
  with a show ?thesis
    by (simp add: run_once_def done_entry_def failure_recorded_def new_InstanceState_def w0_def)
qed

section \<open>What one pass of the worker's loop counts\<close>

definition counted_success :: "InstanceState \<Rightarrow> InstanceState \<Rightarrow> bool" where
  "counted_success st st' =
     (runs st' = runs st + 1 \<and> successes st' = successes st + 1 \<and> failures st' = failures st)"

definition counted_failure :: "InstanceState \<Rightarrow> InstanceState \<Rightarrow> bool" where
  "counted_failure st st' =
     (runs st' = runs st + 1 \<and> successes st' = successes st \<and> failures st' = failures st + 1)"

text \<open>
  A pass counts by how its run ended. A run that returned is one more run and one more
  success, a run that raised an \<open>Exception\<close> one more run and one more failure; the
  loop then goes round again, unless the sleep that follows is cancelled. A run that
  raised something else is not counted and ends the task, and so does a pass whose
  choice of the URL raised.
\<close>

lemma runner_iteration_exact:
  assumes it: "iteration_run env urls st w = Some (url, st2, w1)"
    and run: "run_once env url st2 w1 = (x, st3, w2)"
    and pass: "runner_iteration env urls st w = (y, st', w')"
  shows "case x of
           Inr res \<Rightarrow> counted_success st st' \<and> (y = None \<or> y = Some CancelledError)
         | Inl e \<Rightarrow>
             if is_Exception e
             then counted_failure st st' \<and> (y = None \<or> y = Some CancelledError)
             else uncounted st st' \<and> y = Some e"
proof -
  from it obtain p: "pick_url env urls w = (Inr url, w1)"
    "st2 = st\<lparr>inst_status := ''running'', current_step := ''pick url'',
              last_url := url, started_at := clock w1\<rparr>"
    by (auto simp: iteration_run_def split: prod.splits sum.splits)
  from run have "frozen st2 st3" by (rule run_once_frozen)
  then have same: "runs st3 = runs st" "successes st3 = successes st"
    "failures st3 = failures st"
    using p(2) by (auto dest: frozen_counters)
  show ?thesis
  proof (cases x)
    case (Inr res)
    let ?st4 = "st3\<lparr>runs := runs st3 + 1, successes := successes st3 + 1,
      last_detail := (if res \<noteq> [] then detail (last res) else []),
      inst_status := ''idle'', current_step := ''sleep 1s''\<rparr>"
    let ?w3 = "w2\<lparr>total_done := total_done w2 + 1\<rparr>"
    obtain r4 w4 where sl: "sleep env 1000 ?w3 = (r4, w4)" by (cases "sleep env 1000 ?w3")
    have "st' = ?st4 \<and> (y = None \<or> y = Some CancelledError)"
    proof (cases r4)
      case (Inl e)
      with sl have "e = CancelledError" by (auto dest: sleep_raises_cancelled)
      with p run Inr sl Inl pass show ?thesis
        by (simp add: runner_iteration_def on_failure_def)
    next
      case r: (Inr u)
      with p run Inr sl pass show ?thesis
        by (simp add: runner_iteration_def)
    qed
    with same Inr show ?thesis by (simp add: counted_success_def)
  next
    case (Inl e)
    show ?thesis
    proof (cases "is_Exception e")
      case False
      with p run Inl pass have "st' = st3" "y = Some e"
        by (simp_all add: runner_iteration_def on_failure_def)
      with same Inl False show ?thesis by (simp add: uncounted_def)
    next
      case True
      let ?st4 = "st3\<lparr>runs := runs st3 + 1, failures := failures st3 + 1,
        inst_status := ''error/restarting'', last_detail := str_exn e\<rparr>"
      obtain r4 w4 where sl: "sleep env 500 w2 = (r4, w4)" by (cases "sleep env 500 w2")
      have "st' = ?st4 \<and> (y = None \<or> y = Some CancelledError)"
      proof (cases r4)
        case l: (Inl e')
        with sl have "e' = CancelledError" by (auto dest: sleep_raises_cancelled)
        with p run Inl True sl l pass show ?thesis
          by (simp add: runner_iteration_def on_failure_def Let_def)
      next
        case r: (Inr u)
        with p run Inl True sl pass show ?thesis
          by (simp add: runner_iteration_def on_failure_def Let_def)
      qed
      with same Inl True show ?thesis by (simp add: counted_failure_def)
    qed
  qed
qed

lemma runner_iteration_no_url:
  assumes "iteration_run env urls st w = None"
    and "runner_iteration env urls st w = (y, st', w')"
  shows "uncounted st st' \<and> (\<exists>e. y = Some e)"
  using assms
  by (auto simp: iteration_run_def runner_iteration_def uncounted_def Let_def
      split: prod.splits sum.splits)

lemma runner_task_runs:
  "runner_task n env urls st w = (None, st', w') \<Longrightarrow> runs st' = runs st + int n"
proof (induction n arbitrary: st w)
  case 0
  then show ?case by simp
next
  case (Suc n)
  obtain y st1 w1 where it: "runner_iteration env urls st w = (y, st1, w1)"
    by (cases "runner_iteration env urls st w")
  show ?case
  proof (cases y)
    case None
    with runner_iteration_counts [OF it] have "runs st1 = runs st + 1"
      by (simp add: counted_once_def)
    moreover from Suc.prems it None have "runner_task n env urls st1 w1 = (None, st', w')"
      by simp
    then have "runs st' = runs st1 + int n" by (rule Suc.IH)
    ultimately show ?thesis by simp
  next
    case (Some e)
    with Suc.prems it show ?thesis by simp
  qed
qed

text \<open>
  C10. A worker whose counters satisfy \<open>runs = successes + failures\<close> still satisfies it
  after any number of passes of its loop, however they end, and a worker that is still
  looping after \<open>n\<close> passes has counted \<open>n\<close> runs. Each pass counts by how its run
  ended: one run and one success when the run returned, one run and one failure when
  it raised an \<open>Exception\<close>, never both; only a pass that ends the task, because its
  run raised something that is no \<open>Exception\<close> or because no URL could be chosen,
  counts nothing.
\<close>

theorem runner_task_counters:
  assumes "runs st = successes st + failures st"
    and "runner_task n env urls st w = (r, st', w')"
  shows "runs st' = successes st' + failures st' \<and>
         (r = None \<longrightarrow> runs st' = runs st + int n) \<and>
         (case iteration_run env urls st w of
            None \<Rightarrow>
              uncounted st (fst (snd (runner_iteration env urls st w))) \<and>
              fst (runner_iteration env urls st w) \<noteq> None
          | Some (url, st2, w1) \<Rightarrow>
              (case fst (run_once env url st2 w1) of
                 Inr res \<Rightarrow>
                   counted_success st (fst (snd (runner_iteration env urls st w))) \<and>
                   fst (runner_iteration env urls st w) \<in> {None, Some CancelledError}
               | Inl e \<Rightarrow>
                   if is_Exception e
                   then counted_failure st (fst (snd (runner_iteration env urls st w))) \<and>
                        fst (runner_iteration env urls st w) \<in> {None, Some CancelledError}
                   else uncounted st (fst (snd (runner_iteration env urls st w))) \<and>
                        fst (runner_iteration env urls st w) = Some e))"
proof -
  obtain y st1 w1 where pass: "runner_iteration env urls st w = (y, st1, w1)"
    by (cases "runner_iteration env urls st w")
  have one: "case iteration_run env urls st w of
            None \<Rightarrow>
              uncounted st (fst (snd (runner_iteration env urls st w))) \<and>
              fst (runner_iteration env urls st w) \<noteq> None
          | Some (url, st2, w1) \<Rightarrow>
              (case fst (run_once env url st2 w1) of
                 Inr res \<Rightarrow>
                   counted_success st (fst (snd (runner_iteration env urls st w))) \<and>
                   fst (runner_iteration env urls st w) \<in> {None, Some CancelledError}
               | Inl e \<Rightarrow>
                   if is_Exception e
                   then counted_failure st (fst (snd (runner_iteration env urls st w))) \<and>
                        fst (runner_iteration env urls st w) \<in> {None, Some CancelledError}
                   else uncounted st (fst (snd (runner_iteration env urls st w))) \<and>
                        fst (runner_iteration env urls st w) = Some e)"
  proof (cases "iteration_run env urls st w")
    case None
    from runner_iteration_no_url [OF None pass] None pass show ?thesis by auto
  next
    case (Some t)
    obtain url st2 w2 where t: "t = (url, st2, w2)" by (cases t)
    obtain x st3 w3 where run: "run_once env url st2 w2 = (x, st3, w3)"
      by (cases "run_once env url st2 w2")
    from Some t have it: "iteration_run env urls st w = Some (url, st2, w2)" by simp
    from runner_iteration_exact [OF it run pass] it run pass show ?thesis
      by (cases x) (auto split: if_splits)
  qed
  have "r = None \<longrightarrow> runs st' = runs st + int n"
    using assms(2) by (auto dest: runner_task_runs)
  with runner_task_invariant [OF assms] one show ?thesis by simp
qed

theorem runner_task_counters_witness:
  "runs (new_InstanceState 1 0)
     = successes (new_InstanceState 1 0) + failures (new_InstanceState 1 0) \<and>
   fst (runner_task 2 (page_both False) [''http://x''] (new_InstanceState 1 0) w0) = None \<and>
   runs (fst (snd (runner_task 2 (page_both False) [''http://x'']
           (new_InstanceState 1 0) w0))) = 2 \<and>
   successes (fst (snd (runner_task 2 (page_both False) [''http://x'']
           (new_InstanceState 1 0) w0))) = 2 \<and>
   failures (fst (snd (runner_task 2 (page_both False) [''http://x'']
           (new_InstanceState 1 0) w0))) = 0 \<and>
   counted_success (new_InstanceState 1 0)
     (fst (snd (runner_iteration (page_both False) [''http://x''] (new_InstanceState 1 0) w0))) \<and>
   counted_failure (new_InstanceState 1 0)
     (fst (snd (runner_iteration page_dead [''http://x''] (new_InstanceState 1 0) w0)))"
proof -
  let ?st = "new_InstanceState 1 0"
  let ?st2 = "?st\<lparr>inst_status := ''running'', current_step := ''pick url'',
    last_url := ''http://x'', started_at := 10\<rparr>"
  let ?w1 = "w0\<lparr>clock := clock w0 + 10, trace := (RandomChoice, Inr None) # trace w0\<rparr>"
  have h: "runs ?st = successes ?st + failures ?st"
    by (simp add: new_InstanceState_def)
  have ev: "fst (runner_task 2 (page_both False) [''http://x''] ?st w0) = None"
    "successes (fst (snd (runner_task 2 (page_both False) [''http://x''] ?st w0))) = 2"
    by (simp_all add: numeral_2_eq_2 runner_iteration_def pick_url_def on_failure_def Let_def
        engine_defs flow_defs page_both_def w0_def new_InstanceState_def)
  have it: "iteration_run (page_both False) [''http://x''] ?st w0 = Some (''http://x'', ?st2, ?w1)"
    by (simp add: iteration_run_def pick_url_def call_def page_both_def w0_def)
  have ok: "\<exists>res. fst (run_once (page_both False) ''http://x'' ?st2 ?w1) = Inr res"
    by (simp add: engine_defs flow_defs page_both_def w0_def new_InstanceState_def)
  have run2: "runner_task 2 (page_both False) [''http://x''] ?st w0
      = (None, snd (runner_task 2 (page_both False) [''http://x''] ?st w0))"
    using ev(1) by (metis prod.collapse)
  from runner_task_counters [OF h, of 2 "page_both False" "[''http://x'']" w0 None
      "fst (snd (runner_task 2 (page_both False) [''http://x''] ?st w0))"
      "snd (snd (runner_task 2 (page_both False) [''http://x''] ?st w0))"] run2 it ok
  have a: "runs (fst (snd (runner_task 2 (page_both False) [''http://x''] ?st w0)))
      = successes (fst (snd (runner_task 2 (page_both False) [''http://x''] ?st w0)))
        + failures (fst (snd (runner_task 2 (page_both False) [''http://x''] ?st w0)))"
    "runs (fst (snd (runner_task 2 (page_both False) [''http://x''] ?st w0))) = runs ?st + 2"
    "counted_success ?st (fst (snd (runner_iteration (page_both False) [''http://x''] ?st w0)))"
    by auto
  have itd: "iteration_run page_dead [''http://x''] ?st w0 = Some (''http://x'', ?st2, ?w1)"
    by (simp add: iteration_run_def pick_url_def call_def page_dead_def w0_def)
  from run_session_page_dead [of "''http://x''" ?st2 ?w1] have
    bad: "fst (run_once page_dead ''http://x'' ?st2 ?w1)
      = Inl (PlaywrightTimeout ''Timeout exceeded.'')"
    by (auto simp: run_once_def)
  from runner_task_counters [OF h, of 0 page_dead "[''http://x'']" w0 None ?st w0] itd bad
  have b: "counted_failure ?st (fst (snd (runner_iteration page_dead [''http://x''] ?st w0)))"
    by simp
  from a b ev h show ?thesis by (simp add: new_InstanceState_def)
qed

end
